theory Spec2Isabelle
  imports Complex_Main
begin

section \<open>The sliding-window rate limiter\<close>

text \<open>
  \<^verbatim>\<open>rate_limit_check\<close> is the same function in \<^verbatim>\<open>app.py\<close> and
  \<^verbatim>\<open>transcript.py\<close> (lines 33-45 of both). It reads the clock, rebinds the module
  global \<^verbatim>\<open>request_timestamps\<close> to the filtered list, and either returns
  \<^verbatim>\<open>False\<close> or appends the clock value and returns \<^verbatim>\<open>True\<close>.

  In the model the clock value \<open>now\<close> (the result of \<^verbatim>\<open>time.time()\<close>) and the global
  list are arguments, and the new value of the global is returned beside the
  boolean. \<^verbatim>\<open>MAX_REQUESTS_PER_MINUTE\<close> is \<^verbatim>\<open>int(os.getenv(...))\<close>, any integer.
  Clock values are reals: the only arithmetic on them is the difference
  \<^verbatim>\<open>now - ts\<close> and its comparison with 60.
\<close>

definition rate_limit_check :: "int \<Rightarrow> real \<Rightarrow> real list \<Rightarrow> bool \<times> real list" where
  "rate_limit_check MAX_REQUESTS_PER_MINUTE now request_timestamps =
     (let kept = filter (\<lambda>ts. now - ts < 60) request_timestamps in
      if int (length kept) \<ge> MAX_REQUESTS_PER_MINUTE then (False, kept)
      else (True, kept @ [now]))"

text \<open>
  Successive calls, each with its own clock value, threading the global list
  through: the returned pair holds the boolean of every call, in order, and the
  final list.
\<close>

fun rate_limit_calls :: "int \<Rightarrow> real list \<Rightarrow> real list \<Rightarrow> bool list \<times> real list" where
  "rate_limit_calls mx st [] = ([], st)"
| "rate_limit_calls mx st (now # nows) =
     (let r = rate_limit_check mx now st;
          rs = rate_limit_calls mx (snd r) nows
      in (fst r # fst rs, snd rs))"

section \<open>Python values: exceptions and strings\<close>

text \<open>
  An exception is modelled by the text \<^verbatim>\<open>str(e)\<close> gives for it, the only thing the
  program reads of an exception. A Python call that may raise returns a value of
  \<open>exn + 'a\<close>: \<open>Inl\<close> is the raised exception, \<open>Inr\<close> the returned value. A
  \<^verbatim>\<open>try\<close>/\<^verbatim>\<open>except Exception\<close> is a case distinction on such a value.

  A \<^verbatim>\<open>str\<close> is a \<open>string\<close>, one \<open>char\<close> for each code point; the model covers
  the strings whose code points are below 256.
\<close>

datatype exn = Exception string

fun str_of_exn :: "exn \<Rightarrow> string" where
  "str_of_exn (Exception msg) = msg"

text \<open>\<^verbatim>\<open>time.sleep(d)\<close> raises ValueError for a negative \<^verbatim>\<open>d\<close>.\<close>

definition time_sleep :: "real \<Rightarrow> exn + unit" where
  "time_sleep d =
     (if d < 0 then Inl (Exception ''sleep length must be non-negative'') else Inr ())"

text \<open>\<^verbatim>\<open>s.startswith(p)\<close> and \<^verbatim>\<open>sub in s\<close>.\<close>

fun str_startswith :: "string \<Rightarrow> string \<Rightarrow> bool" where
  "str_startswith s [] = True"
| "str_startswith [] (p # ps) = False"
| "str_startswith (c # cs) (p # ps) = (c = p \<and> str_startswith cs ps)"

fun str_contains :: "string \<Rightarrow> string \<Rightarrow> bool" where
  "str_contains [] sub = (sub = [])"
| "str_contains (c # cs) sub = (str_startswith (c # cs) sub \<or> str_contains cs sub)"

text \<open>
  \<^verbatim>\<open>s.split(sep)\<close> for a separator that is not empty (with the empty separator
  Python raises, and the program never passes it): the pieces between the
  occurrences of \<open>sep\<close>, found from the left and not overlapping. \<open>cur\<close> is the piece
  being read.
\<close>

fun split_from :: "string \<Rightarrow> string \<Rightarrow> string \<Rightarrow> string list" where
  "split_from sep cur [] = [cur]"
| "split_from sep cur (c # cs) =
     (if sep \<noteq> [] \<and> str_startswith (c # cs) sep
      then cur # split_from sep [] (drop (length sep) (c # cs))
      else split_from sep (cur @ [c]) cs)"

definition str_split :: "string \<Rightarrow> string \<Rightarrow> string list" where
  "str_split s sep = split_from sep [] s"

text \<open>
  \<^verbatim>\<open>xs[0]\<close> and \<^verbatim>\<open>xs[-1]\<close>: IndexError on the empty list.
\<close>

definition index_error :: exn where
  "index_error = Exception ''list index out of range''"

fun item_first :: "'a list \<Rightarrow> exn + 'a" where
  "item_first [] = Inl index_error"
| "item_first (x # xs) = Inr x"

fun item_last :: "'a list \<Rightarrow> exn + 'a" where
  "item_last [] = Inl index_error"
| "item_last (x # xs) = Inr (last (x # xs))"

text \<open>\<^verbatim>\<open>sep.join(parts)\<close>.\<close>

fun str_join :: "string \<Rightarrow> string list \<Rightarrow> string" where
  "str_join sep [] = []"
| "str_join sep [x] = x"
| "str_join sep (x # y # ys) = x @ sep @ str_join sep (y # ys)"

text \<open>
  The code points below 256 that Python counts as whitespace, in \<^verbatim>\<open>str.strip()\<close>
  and in the class \<^verbatim>\<open>\s\<close> of \<^verbatim>\<open>re\<close>: tab, line feed, vertical tab, form feed,
  carriage return, the separators 0x1C-0x1F, space, 0x85 and 0xA0.
\<close>

definition isspace :: "char \<Rightarrow> bool" where
  "isspace c = (c \<in> {CHR 0x09, CHR 0x0A, CHR 0x0B, CHR 0x0C, CHR 0x0D,
                      CHR 0x1C, CHR 0x1D, CHR 0x1E, CHR 0x1F, CHR 0x20, CHR 0x85, CHR 0xA0})"

definition str_strip :: "string \<Rightarrow> string" where
  "str_strip s = rev (dropWhile isspace (rev (dropWhile isspace s)))"

text \<open>
  \<^verbatim>\<open>s.replace(old, new)\<close> for an \<open>old\<close> that is not empty: every occurrence of
  \<open>old\<close>, found from the left and not overlapping, becomes \<open>new\<close>.
\<close>

fun str_replace :: "string \<Rightarrow> string \<Rightarrow> string \<Rightarrow> string" where
  "str_replace [] old new = []"
| "str_replace (c # cs) old new =
     (if old \<noteq> [] \<and> str_startswith (c # cs) old
      then new @ str_replace (drop (length old) (c # cs)) old new
      else c # str_replace cs old new)"

text \<open>
  Decimal digits: \<^verbatim>\<open>int(s)\<close> on a string of digits, and the text of an integer in
  an f-string.
\<close>

definition isdigit :: "char \<Rightarrow> bool" where
  "isdigit c = (c \<in> set ''0123456789'')"

definition digit_value :: "char \<Rightarrow> int" where
  "digit_value c = of_char c - 48"

definition int_of_digits :: "string \<Rightarrow> int" where
  "int_of_digits s = foldl (\<lambda>acc c. 10 * acc + digit_value c) 0 s"

definition digit_char :: "nat \<Rightarrow> char" where
  "digit_char d = ''0123456789'' ! d"

fun str_of_nat :: "nat \<Rightarrow> string" where
  "str_of_nat n = (if n < 10 then [digit_char n] else str_of_nat (n div 10) @ [digit_char (n mod 10)])"

definition str_of_int :: "int \<Rightarrow> string" where
  "str_of_int i = (if i < 0 then CHR ''-'' # str_of_nat (nat (- i)) else str_of_nat (nat i))"

section \<open>The regular expressions of \<^verbatim>\<open>re\<close>\<close>

text \<open>
  The patterns of the program use characters and character classes, sequence,
  alternation, the greedy \<^verbatim>\<open>?\<close>, \<^verbatim>\<open>*\<close> and \<^verbatim>\<open>+\<close>, the lazy \<^verbatim>\<open>*?\<close>, a
  counted repetition and capture groups. \<open>regex\<close> is their syntax.

  \<open>rx_match r (s, g)\<close> lists every way \<open>r\<close> matches at the start of \<open>s\<close>, as the
  pair of the text left after the match and the capture groups set so far (the
  groups \<open>g\<close> and those \<open>r\<close> sets, the last one set first), in the order in which
  the backtracking matcher of \<^verbatim>\<open>re\<close> tries them: the left alternative before the
  right one, one more round of a greedy repetition before stopping, stopping
  before one more round of a lazy one. The first element is the match
  \<^verbatim>\<open>re\<close> reports. A round of a repetition that consumes nothing ends the
  repetition, so the number of rounds is at most the length of the text.
\<close>

datatype regex =
    Chr "char \<Rightarrow> bool"
  | Eps
  | Seq regex regex
  | Alt regex regex
  | Opt regex
  | Star regex
  | Plus regex
  | Lazy regex
  | Times nat regex
  | Group nat regex

type_synonym mstate = "string \<times> (nat \<times> string) list"

fun greedy_iter :: "nat \<Rightarrow> (mstate \<Rightarrow> mstate list) \<Rightarrow> mstate \<Rightarrow> mstate list" where
  "greedy_iter 0 f st = [st]"
| "greedy_iter (Suc k) f st =
     concat (map (greedy_iter k f)
               (filter (\<lambda>st'. length (fst st') < length (fst st)) (f st))) @ [st]"

fun lazy_iter :: "nat \<Rightarrow> (mstate \<Rightarrow> mstate list) \<Rightarrow> mstate \<Rightarrow> mstate list" where
  "lazy_iter 0 f st = [st]"
| "lazy_iter (Suc k) f st =
     st # concat (map (lazy_iter k f)
                    (filter (\<lambda>st'. length (fst st') < length (fst st)) (f st)))"

fun times_iter :: "nat \<Rightarrow> (mstate \<Rightarrow> mstate list) \<Rightarrow> mstate \<Rightarrow> mstate list" where
  "times_iter 0 f st = [st]"
| "times_iter (Suc k) f st = concat (map (times_iter k f) (f st))"

primrec rx_match :: "regex \<Rightarrow> mstate \<Rightarrow> mstate list" where
  "rx_match (Chr p) st =
     (case fst st of [] \<Rightarrow> [] | c # cs \<Rightarrow> if p c then [(cs, snd st)] else [])"
| "rx_match Eps st = [st]"
| "rx_match (Seq a b) st = concat (map (rx_match b) (rx_match a st))"
| "rx_match (Alt a b) st = rx_match a st @ rx_match b st"
| "rx_match (Opt a) st = rx_match a st @ [st]"
| "rx_match (Star a) st = greedy_iter (length (fst st)) (rx_match a) st"
| "rx_match (Plus a) st =
     concat (map (\<lambda>st'. greedy_iter (length (fst st')) (rx_match a) st') (rx_match a st))"
| "rx_match (Lazy a) st = lazy_iter (length (fst st)) (rx_match a) st"
| "rx_match (Times n a) st = times_iter n (rx_match a) st"
| "rx_match (Group n a) st =
     map (\<lambda>st'. (fst st', (n, take (length (fst st) - length (fst st')) (fst st)) # snd st'))
       (rx_match a st)"

text \<open>A literal text, and \<^verbatim>\<open>.\<close>: any character but the line feed.\<close>

fun lit :: "string \<Rightarrow> regex" where
  "lit [] = Eps"
| "lit (c # cs) = Seq (Chr (\<lambda>x. x = c)) (lit cs)"

definition dot :: regex where
  "dot = Chr (\<lambda>c. c \<noteq> CHR 0x0A)"

text \<open>
  \<^verbatim>\<open>re.match\<close> tries the pattern at the start of the text; \<^verbatim>\<open>re.search\<close> at
  every position from the left, and reports the first match of the first position
  that has one. \<^verbatim>\<open>m.group(n)\<close> is None for a group that took no part in the match.
\<close>

definition re_match :: "regex \<Rightarrow> string \<Rightarrow> mstate option" where
  "re_match r s = (case rx_match r (s, []) of [] \<Rightarrow> None | st # _ \<Rightarrow> Some st)"

fun re_search :: "regex \<Rightarrow> string \<Rightarrow> mstate option" where
  "re_search r [] = re_match r []"
| "re_search r (c # cs) =
     (case re_match r (c # cs) of None \<Rightarrow> re_search r cs | Some st \<Rightarrow> Some st)"

definition group :: "mstate \<Rightarrow> nat \<Rightarrow> string option" where
  "group m n = map_of (snd m) n"

text \<open>
  \<^verbatim>\<open>re.sub(pattern, repl, s)\<close> for a replacement text without group references:
  from the left, the first match at the leftmost position that has one is replaced and
  the scan goes on behind it. After an empty match the next character is copied
  (no pattern of the program matches the empty text).
\<close>

function re_sub :: "regex \<Rightarrow> string \<Rightarrow> string \<Rightarrow> string" where
  "re_sub r repl s =
     (case re_match r s of
        None \<Rightarrow> (case s of [] \<Rightarrow> [] | c # cs \<Rightarrow> c # re_sub r repl cs)
      | Some st \<Rightarrow>
          if length s - length (fst st) = 0
          then (case s of [] \<Rightarrow> repl | c # cs \<Rightarrow> repl @ c # re_sub r repl cs)
          else repl @ re_sub r repl (drop (length s - length (fst st)) s))"
  by pat_completeness auto
termination
  by (relation "measure (\<lambda>(r, repl, s). length s)") auto

section \<open>Video id extraction\<close>

text \<open>Sequencing of calls that may raise: the first exception ends the sequence.\<close>

fun try_bind :: "exn + 'a \<Rightarrow> ('a \<Rightarrow> exn + 'b) \<Rightarrow> exn + 'b" where
  "try_bind (Inl e) f = Inl e"
| "try_bind (Inr x) f = f x"

text \<open>
  The fallback pattern of \<^verbatim>\<open>extract_video_id\<close>, the same in both files:
  \<^verbatim>\<open>(?:youtube\.com\/(?:[^\/]+\/.+\/|(?:v|e(?:mbed)?)\/|.*[?&]v=)|youtu\.be\/)([^"&?\/\s]{11})\<close>
\<close>

definition video_id_pattern :: regex where
  "video_id_pattern =
     Seq (Alt (Seq (lit ''youtube.com/'')
                 (Alt (Seq (Plus (Chr (\<lambda>c. c \<noteq> CHR ''/'')))
                         (Seq (lit ''/'') (Seq (Plus dot) (lit ''/''))))
                 (Alt (Seq (Alt (lit ''v'') (Seq (lit ''e'') (Opt (lit ''mbed'')))) (lit ''/''))
                      (Seq (Star dot)
                         (Seq (Chr (\<lambda>c. c \<in> {CHR ''?'', CHR ''&''})) (lit ''v=''))))))
              (lit ''youtu.be/''))
         (Group 1 (Times 11
            (Chr (\<lambda>c. c \<notin> {CHR 0x22, CHR ''&'', CHR ''?'', CHR ''/''} \<and> \<not> isspace c))))"

text \<open>
  The candidate both files compute (\<^verbatim>\<open>app.py\<close> lines 52-62, \<^verbatim>\<open>transcript.py\<close>
  lines 50-60): the first of the three markers the URL contains decides; the text
  behind the last occurrence of the marker is cut at the first \<^verbatim>\<open>&\<close> or
  \<^verbatim>\<open>?\<close>. With no marker the pattern is searched, and the candidate is its group 1
  or None.
\<close>

definition video_id_candidate :: "string \<Rightarrow> exn + string option" where
  "video_id_candidate youtube_url =
     (if str_contains youtube_url ''watch?v='' then
        try_bind (item_last (str_split youtube_url ''watch?v='')) (\<lambda>rest.
        try_bind (item_first (str_split rest ''&'')) (\<lambda>video_id. Inr (Some video_id)))
      else if str_contains youtube_url ''youtu.be/'' then
        try_bind (item_last (str_split youtube_url ''youtu.be/'')) (\<lambda>rest.
        try_bind (item_first (str_split rest ''?'')) (\<lambda>video_id. Inr (Some video_id)))
      else if str_contains youtube_url ''embed/'' then
        try_bind (item_last (str_split youtube_url ''embed/'')) (\<lambda>rest.
        try_bind (item_first (str_split rest ''?'')) (\<lambda>video_id. Inr (Some video_id)))
      else
        (case re_search video_id_pattern youtube_url of
           Some m \<Rightarrow> Inr (group m 1)
         | None \<Rightarrow> Inr None))"

text \<open>
  \<^verbatim>\<open>app.py\<close>, \<^verbatim>\<open>extract_video_id\<close> (lines 47-73): the candidate is returned only
  when it is not empty and has 11 characters; an exception gives None.
\<close>

definition app_extract_video_id :: "string \<Rightarrow> exn + string option" where
  "app_extract_video_id youtube_url =
     (case try_bind (video_id_candidate youtube_url) (\<lambda>video_id.
             (case video_id of
                Some v \<Rightarrow> if v \<noteq> [] \<and> length v = 11 then Inr (Some v) else Inr None
              | None \<Rightarrow> Inr None))
      of Inl e \<Rightarrow> Inr None
       | Inr r \<Rightarrow> Inr r)"

text \<open>
  \<^verbatim>\<open>transcript.py\<close>, \<^verbatim>\<open>extract_video_id\<close> (lines 47-63): each branch returns its
  candidate as it is.
\<close>

definition transcript_extract_video_id :: "string \<Rightarrow> exn + string option" where
  "transcript_extract_video_id youtube_url =
     (case video_id_candidate youtube_url of
        Inl e \<Rightarrow> Inr None
      | Inr r \<Rightarrow> Inr r)"

section \<open>Transcript retrieval\<close>

text \<open>
  The transcript provider is outside the program. A segment is a dictionary (its
  keys and values); \<^verbatim>\<open>get_transcript(video_id)\<close> and
  \<^verbatim>\<open>get_transcript(video_id, languages=...)\<close> return a list of segments or raise;
  \<^verbatim>\<open>list_transcripts(video_id)\<close> returns the tracks or raises, and a track is
  given by what its \<^verbatim>\<open>fetch()\<close> does.
\<close>

type_synonym item = "(string \<times> string) list"

record youtube_api =
  get_transcript :: "string \<Rightarrow> string list option \<Rightarrow> exn + item list"
  list_transcripts :: "string \<Rightarrow> exn + (exn + item list) list"

text \<open>
  \<^verbatim>\<open>" ".join([item['text'] for item in transcript_list])\<close>: KeyError at the first
  segment without the key.
\<close>

definition key_error :: "string \<Rightarrow> exn" where
  "key_error k = Exception (CHR 0x27 # k @ [CHR 0x27])"

fun item_texts :: "item list \<Rightarrow> exn + string list" where
  "item_texts [] = Inr []"
| "item_texts (item # items) =
     (case map_of item ''text'' of
        None \<Rightarrow> Inl (key_error ''text'')
      | Some t \<Rightarrow> try_bind (item_texts items) (\<lambda>ts. Inr (t # ts)))"

definition join_items :: "item list \<Rightarrow> exn + string" where
  "join_items transcript_list = try_bind (item_texts transcript_list) (\<lambda>ts. Inr (str_join '' '' ts))"

text \<open>
  The cleaning step (\<^verbatim>\<open>app.py\<close> lines 130-131, \<^verbatim>\<open>transcript.py\<close> lines 105-106):
  \<^verbatim>\<open>re.sub(r'\[.*?\]', '', text)\<close>, then \<^verbatim>\<open>re.sub(r'\s+', ' ', text).strip()\<close>.
\<close>

definition bracket_pattern :: regex where
  "bracket_pattern = Seq (lit ''['') (Seq (Lazy dot) (lit '']''))"

definition space_pattern :: regex where
  "space_pattern = Plus (Chr isspace)"

definition clean_transcript :: "string \<Rightarrow> string" where
  "clean_transcript transcript_text =
     str_strip (re_sub space_pattern '' '' (re_sub bracket_pattern [] transcript_text))"

text \<open>
  The end of \<^verbatim>\<open>fetch_transcript\<close> (\<^verbatim>\<open>app.py\<close> lines 128-135, \<^verbatim>\<open>transcript.py\<close>
  lines 103-109): the test \<^verbatim>\<open>if transcript_text:\<close> reads the text as assembled,
  before it is cleaned.
\<close>

definition finish_transcript :: "string \<Rightarrow> string \<times> bool \<times> string" where
  "finish_transcript transcript_text =
     (if transcript_text \<noteq> [] then (clean_transcript transcript_text, True, [])
      else ([], False, ''No transcript text extracted''))"

text \<open>
  The loop of the third method over the tracks: the first track whose
  \<^verbatim>\<open>fetch()\<close> and join succeed sets \<^verbatim>\<open>transcript_text\<close> and ends the loop; a
  track that raises is skipped.
\<close>

fun fetch_first :: "(exn + item list) list \<Rightarrow> string \<Rightarrow> string" where
  "fetch_first [] transcript_text = transcript_text"
| "fetch_first (transcript # rest) transcript_text =
     (case try_bind transcript join_items of
        Inr text \<Rightarrow> text
      | Inl e \<Rightarrow> fetch_first rest transcript_text)"

text \<open>\<^verbatim>\<open>app.py\<close>, \<^verbatim>\<open>fetch_transcript\<close> (lines 75-140): the body of the outer \<^verbatim>\<open>try\<close>.\<close>

definition app_fetch_transcript_body ::
    "real \<Rightarrow> youtube_api \<Rightarrow> string \<Rightarrow> exn + string \<times> bool \<times> string" where
  "app_fetch_transcript_body REQUEST_DELAY api video_id =
     try_bind (time_sleep REQUEST_DELAY) (\<lambda>_.
       case try_bind (get_transcript api video_id None) join_items of
         Inr transcript_text \<Rightarrow> Inr (finish_transcript transcript_text)
       | Inl e1 \<Rightarrow>
          (case try_bind (get_transcript api video_id
                            (Some [''en'', ''en-US'', ''en-GB'', ''auto''])) join_items of
             Inr transcript_text \<Rightarrow> Inr (finish_transcript transcript_text)
           | Inl e2 \<Rightarrow>
              (case list_transcripts api video_id of
                 Inl e3 \<Rightarrow>
                   Inr ([], False, ''No transcript available: '' @ take 100 (str_of_exn e1))
               | Inr available_transcripts \<Rightarrow>
                   (let transcript_text = fetch_first available_transcripts [] in
                    if transcript_text = []
                    then Inr ([], False, ''No accessible transcripts found'')
                    else Inr (finish_transcript transcript_text)))))"

definition app_fetch_transcript ::
    "real \<Rightarrow> youtube_api \<Rightarrow> string \<Rightarrow> exn + string \<times> bool \<times> string" where
  "app_fetch_transcript REQUEST_DELAY api video_id =
     (case app_fetch_transcript_body REQUEST_DELAY api video_id of
        Inl e \<Rightarrow> Inr ([], False, str_of_exn e)
      | Inr r \<Rightarrow> Inr r)"

text \<open>\<^verbatim>\<open>transcript.py\<close>, \<^verbatim>\<open>fetch_transcript\<close> (lines 65-114).\<close>

definition transcript_fetch_transcript_body ::
    "real \<Rightarrow> youtube_api \<Rightarrow> string \<Rightarrow> exn + string \<times> bool \<times> string" where
  "transcript_fetch_transcript_body REQUEST_DELAY api video_id =
     try_bind (time_sleep REQUEST_DELAY) (\<lambda>_.
       case try_bind (get_transcript api video_id None) join_items of
         Inr transcript_text \<Rightarrow> Inr (finish_transcript transcript_text)
       | Inl e1 \<Rightarrow>
          (case try_bind (get_transcript api video_id
                            (Some [''en'', ''en-US'', ''en-GB''])) join_items of
             Inr transcript_text \<Rightarrow> Inr (finish_transcript transcript_text)
           | Inl e2 \<Rightarrow>
              (case list_transcripts api video_id of
                 Inl e3 \<Rightarrow>
                   Inr ([], False, ''No transcript available: '' @ take 100 (str_of_exn e1))
               | Inr transcript_list_obj \<Rightarrow>
                   Inr (finish_transcript (fetch_first transcript_list_obj [])))))"

definition transcript_fetch_transcript ::
    "real \<Rightarrow> youtube_api \<Rightarrow> string \<Rightarrow> exn + string \<times> bool \<times> string" where
  "transcript_fetch_transcript REQUEST_DELAY api video_id =
     (case transcript_fetch_transcript_body REQUEST_DELAY api video_id of
        Inl e \<Rightarrow> Inr ([], False, str_of_exn e)
      | Inr r \<Rightarrow> Inr r)"

section \<open>Video metadata\<close>

text \<open>
  A value \<^verbatim>\<open>json.loads\<close> returns (numbers are integers here), with Python's
  truth value, type name, \<^verbatim>\<open>d.get(key, default)\<close>, \<^verbatim>\<open>key in d\<close> and
  \<^verbatim>\<open>d[key]\<close>. A \<open>JObj\<close> lists the items of the dictionary.
\<close>

datatype json =
    JNull
  | JBool bool
  | JNum int
  | JStr string
  | JArr "json list"
  | JObj "(string \<times> json) list"

fun truthy :: "json \<Rightarrow> bool" where
  "truthy JNull = False"
| "truthy (JBool b) = b"
| "truthy (JNum n) = (n \<noteq> 0)"
| "truthy (JStr s) = (s \<noteq> [])"
| "truthy (JArr xs) = (xs \<noteq> [])"
| "truthy (JObj kvs) = (kvs \<noteq> [])"

fun type_name :: "json \<Rightarrow> string" where
  "type_name JNull = ''NoneType''"
| "type_name (JBool b) = ''bool''"
| "type_name (JNum n) = ''int''"
| "type_name (JStr s) = ''str''"
| "type_name (JArr xs) = ''list''"
| "type_name (JObj kvs) = ''dict''"

definition attribute_error :: "json \<Rightarrow> string \<Rightarrow> exn" where
  "attribute_error v a =
     Exception (CHR 0x27 # type_name v @ [CHR 0x27] @ '' object has no attribute '' @
                CHR 0x27 # a @ [CHR 0x27])"

fun dict_get :: "json \<Rightarrow> string \<Rightarrow> json \<Rightarrow> exn + json" where
  "dict_get (JObj kvs) k dflt = (case map_of kvs k of Some v \<Rightarrow> Inr v | None \<Rightarrow> Inr dflt)"
| "dict_get v k dflt = Inl (attribute_error v ''get'')"

text \<open>
  The watch page as \<^verbatim>\<open>BeautifulSoup\<close> presents it to the program: the attributes of
  the first \<^verbatim>\<open>meta\<close> tag with \<^verbatim>\<open>property="og:title"\<close> (None when there is no
  such tag), the text of the first \<^verbatim>\<open>title\<close> element, the attributes of the
  \<^verbatim>\<open>og:description\<close> tag, and for every \<^verbatim>\<open>application/ld+json\<close> script what
  \<^verbatim>\<open>json.loads(script.string)\<close> does.
\<close>

record page =
  og_title :: "(string \<times> string) list option"
  title_element :: "string option"
  og_description :: "(string \<times> string) list option"
  ld_json_scripts :: "(exn + json) list"

text \<open>
  The duration pattern \<^verbatim>\<open>PT(?:(\d+)H)?(?:(\d+)M)?(?:(\d+)S)?\<close>, matched with
  \<^verbatim>\<open>re.match\<close>, and the formatting of its groups (\<^verbatim>\<open>app.py\<close> lines 191-203,
  \<^verbatim>\<open>transcript.py\<close> lines 158-170). \<open>duration\<close> is the value of the variable
  before the statement.
\<close>

definition duration_pattern :: regex where
  "duration_pattern =
     Seq (lit ''PT'')
       (Seq (Opt (Seq (Group 1 (Plus (Chr isdigit))) (lit ''H'')))
          (Seq (Opt (Seq (Group 2 (Plus (Chr isdigit))) (lit ''M'')))
               (Opt (Seq (Group 3 (Plus (Chr isdigit))) (lit ''S'')))))"

definition group_int :: "mstate \<Rightarrow> nat \<Rightarrow> int" where
  "group_int m n = (case group m n of Some g \<Rightarrow> if g \<noteq> [] then int_of_digits g else 0 | None \<Rightarrow> 0)"

definition parse_duration :: "string \<Rightarrow> string \<Rightarrow> string" where
  "parse_duration duration_iso duration =
     (case re_match duration_pattern duration_iso of
        None \<Rightarrow> duration
      | Some m \<Rightarrow>
          (let hours = group_int m 1; minutes = group_int m 2; seconds = group_int m 3 in
           if hours > 0 then
             str_of_int hours @ ''h '' @ str_of_int minutes @ ''m '' @ str_of_int seconds @ ''s''
           else if minutes > 0 then
             str_of_int minutes @ ''m '' @ str_of_int seconds @ ''s''
           else str_of_int seconds @ ''s''))"

text \<open>
  One round of the loop over the scripts (\<^verbatim>\<open>app.py\<close> lines 181-206,
  \<^verbatim>\<open>transcript.py\<close> lines 148-173): the new value of \<open>duration\<close> and whether the
  loop ends (\<^verbatim>\<open>break\<close>), or the exception that the bare \<^verbatim>\<open>except\<close> turns into
  \<^verbatim>\<open>continue\<close>.
\<close>

definition script_step :: "string \<Rightarrow> exn + json \<Rightarrow> exn + string \<times> bool" where
  "script_step duration script =
     try_bind script (\<lambda>loaded.
       let data = (case loaded of
                     JArr xs \<Rightarrow> (case xs of [] \<Rightarrow> JObj [] | x # _ \<Rightarrow> x)
                   | _ \<Rightarrow> loaded) in
       try_bind (dict_get data ''@type'' JNull) (\<lambda>ty.
         if ty = JStr ''VideoObject'' then
           try_bind (dict_get data ''duration'' (JStr [])) (\<lambda>duration_iso.
             if truthy duration_iso then
               (case duration_iso of
                  JStr d \<Rightarrow>
                    if str_startswith d ''PT'' then Inr (parse_duration d duration, True)
                    else Inr (duration, True)
                | _ \<Rightarrow> Inl (attribute_error duration_iso ''startswith''))
             else Inr (duration, True))
         else Inr (duration, False)))"

fun scan_scripts :: "string \<Rightarrow> (exn + json) list \<Rightarrow> string" where
  "scan_scripts duration [] = duration"
| "scan_scripts duration (script # json_scripts) =
     (case script_step duration script of
        Inl e \<Rightarrow> scan_scripts duration json_scripts
      | Inr (duration', stop) \<Rightarrow>
          if stop then duration' else scan_scripts duration' json_scripts)"

text \<open>
  The title: \<^verbatim>\<open>app.py\<close> lines 163-168 and \<^verbatim>\<open>transcript.py\<close> lines 132-135. A tag
  that was found is true in a condition, whatever its attributes.
\<close>

definition app_title :: "page \<Rightarrow> string" where
  "app_title soup =
     (case og_title soup of
        Some title_tag \<Rightarrow>
          (case map_of title_tag ''content'' of Some c \<Rightarrow> c | None \<Rightarrow> ''Unknown Title'')
      | None \<Rightarrow>
          (case title_element soup of
             Some text \<Rightarrow> str_strip (str_replace text '' - YouTube'' [])
           | None \<Rightarrow> ''Unknown Title''))"

definition transcript_title :: "page \<Rightarrow> string" where
  "transcript_title soup =
     (case og_title soup of
        Some title_tag \<Rightarrow>
          (case map_of title_tag ''content'' of Some c \<Rightarrow> c | None \<Rightarrow> ''Unknown Title'')
      | None \<Rightarrow> ''Unknown Title'')"

definition page_description :: "page \<Rightarrow> string" where
  "page_description soup =
     (case og_description soup of
        Some desc_tag \<Rightarrow> (case map_of desc_tag ''content'' of Some c \<Rightarrow> c | None \<Rightarrow> [])
      | None \<Rightarrow> [])"

text \<open>
  \<^verbatim>\<open>get_video_metadata\<close> (\<^verbatim>\<open>app.py\<close> lines 142-226, \<^verbatim>\<open>transcript.py\<close> lines
  116-191). \<open>requests_get url\<close> stands for the request, \<^verbatim>\<open>raise_for_status\<close> and
  the parse: the page, or the exception raised on the way. The returned dictionary
  has the four keys of the record \<open>metadata\<close>.
\<close>

record metadata =
  title :: string
  description :: string
  duration :: string
  url :: string

definition watch_url :: "string \<Rightarrow> string" where
  "watch_url video_id = ''https://www.youtube.com/watch?v='' @ video_id"

definition app_get_video_metadata ::
    "real \<Rightarrow> (string \<Rightarrow> exn + page) \<Rightarrow> string \<Rightarrow> exn + metadata" where
  "app_get_video_metadata REQUEST_DELAY requests_get video_id =
     (case try_bind (time_sleep REQUEST_DELAY) (\<lambda>_.
             try_bind (requests_get (watch_url video_id)) (\<lambda>soup.
               Inr \<lparr>title = app_title soup,
                    description = page_description soup,
                    duration = scan_scripts ''Unknown'' (ld_json_scripts soup),
                    url = watch_url video_id\<rparr>))
      of Inl e \<Rightarrow>
           Inr \<lparr>title = ''Unknown Title'', description = [], duration = ''Unknown'',
                url = watch_url video_id\<rparr>
       | Inr m \<Rightarrow> Inr m)"

definition transcript_get_video_metadata ::
    "real \<Rightarrow> (string \<Rightarrow> exn + page) \<Rightarrow> string \<Rightarrow> exn + metadata" where
  "transcript_get_video_metadata REQUEST_DELAY requests_get video_id =
     (case try_bind (time_sleep REQUEST_DELAY) (\<lambda>_.
             try_bind (requests_get (watch_url video_id)) (\<lambda>soup.
               Inr \<lparr>title = transcript_title soup,
                    description = page_description soup,
                    duration = scan_scripts ''Unknown'' (ld_json_scripts soup),
                    url = watch_url video_id\<rparr>))
      of Inl e \<Rightarrow>
           Inr \<lparr>title = ''Unknown Title'', description = [], duration = ''Unknown'',
                url = watch_url video_id\<rparr>
       | Inr m \<Rightarrow> Inr m)"

text \<open>
  The title chain as the specification words it: the content of the
  \<^verbatim>\<open>og:title\<close> tag if present; else the text of the \<^verbatim>\<open>title\<close> element with a
  trailing " - YouTube" removed; else "Unknown Title".
\<close>

definition strip_suffix :: "string \<Rightarrow> string \<Rightarrow> string" where
  "strip_suffix suffix s =
     (if str_startswith (rev s) (rev suffix) then take (length s - length suffix) s else s)"

definition spec_title :: "page \<Rightarrow> string" where
  "spec_title soup =
     (case Option.bind (og_title soup) (\<lambda>tag. map_of tag ''content'') of
        Some c \<Rightarrow> c
      | None \<Rightarrow>
          (case title_element soup of
             Some text \<Rightarrow> strip_suffix '' - YouTube'' text
           | None \<Rightarrow> ''Unknown Title''))"

section \<open>The batch endpoint\<close>

text \<open>
  \<^verbatim>\<open>transcript.py\<close>, \<^verbatim>\<open>get_batch_transcripts\<close> (lines 274-350). The response is
  the value given to \<^verbatim>\<open>jsonify\<close> and the status code. \<open>body\<close> is what
  \<^verbatim>\<open>request.get_json()\<close> does, \<open>timestamp\<close> the text of
  \<^verbatim>\<open>datetime.utcnow().isoformat()\<close>. Beside the response the model returns the
  new value of \<^verbatim>\<open>request_timestamps\<close> and the video ids handed to
  \<^verbatim>\<open>fetch_transcript\<close>, in order: the calls to the provider the request caused.
\<close>

definition type_error :: "string \<Rightarrow> exn" where
  "type_error msg = Exception msg"

fun py_in :: "string \<Rightarrow> json \<Rightarrow> exn + bool" where
  "py_in k (JObj kvs) = Inr (k \<in> fst ` set kvs)"
| "py_in k (JArr xs) = Inr (JStr k \<in> set xs)"
| "py_in k (JStr s) = Inr (str_contains s k)"
| "py_in k v =
     Inl (type_error (''argument of type '' @ CHR 0x27 # type_name v @ [CHR 0x27] @
                      '' is not iterable''))"

fun py_getitem :: "json \<Rightarrow> string \<Rightarrow> exn + json" where
  "py_getitem (JObj kvs) k = (case map_of kvs k of Some v \<Rightarrow> Inr v | None \<Rightarrow> Inl (key_error k))"
| "py_getitem (JArr xs) k = Inl (type_error ''list indices must be integers or slices, not str'')"
| "py_getitem (JStr s) k = Inl (type_error ''string indices must be integers'')"
| "py_getitem v k =
     Inl (type_error (CHR 0x27 # type_name v @ [CHR 0x27] @ '' object is not subscriptable''))"

text \<open>
  The loop over the URLs (lines 310-336): the results, or the exception that ends
  the loop, and the video ids fetched so far. A URL that is not a string makes
  \<^verbatim>\<open>extract_video_id\<close> raise inside its own \<^verbatim>\<open>try\<close>, so it returns None.
\<close>

fun batch_loop ::
    "real \<Rightarrow> youtube_api \<Rightarrow> json list \<Rightarrow> json list \<Rightarrow> string list \<Rightarrow>
       (exn + json list) \<times> string list" where
  "batch_loop REQUEST_DELAY api [] results fetched = (Inr results, fetched)"
| "batch_loop REQUEST_DELAY api (u # urls) results fetched =
     (case (case u of JStr s \<Rightarrow> transcript_extract_video_id s | _ \<Rightarrow> Inr None) of
        Inl e \<Rightarrow> (Inl e, fetched)
      | Inr extracted \<Rightarrow>
          (case (case extracted of Some v \<Rightarrow> if v \<noteq> [] then Some v else None | None \<Rightarrow> None) of
             None \<Rightarrow>
               batch_loop REQUEST_DELAY api urls
                 (results @ [JObj [(''url'', u), (''success'', JBool False),
                                   (''error'', JStr ''Invalid YouTube URL'')]])
                 fetched
           | Some video_id \<Rightarrow>
               (case transcript_fetch_transcript REQUEST_DELAY api video_id of
                  Inl e \<Rightarrow> (Inl e, fetched @ [video_id])
                | Inr (transcript, success, error) \<Rightarrow>
                    (let result = [(''url'', u), (''video_id'', JStr video_id),
                                   (''success'', JBool success),
                                   (''transcript'', JStr transcript),
                                   (''transcript_length'', JNum (int (length transcript)))] @
                                  (if \<not> success then [(''error'', JStr error)] else [])
                     in case time_sleep (REQUEST_DELAY * 2) of
                          Inl e \<Rightarrow> (Inl e, fetched @ [video_id])
                        | Inr _ \<Rightarrow>
                            batch_loop REQUEST_DELAY api urls (results @ [JObj result])
                              (fetched @ [video_id])))))"

definition error_response :: "string \<Rightarrow> nat \<Rightarrow> json \<times> nat" where
  "error_response msg status = (JObj [(''success'', JBool False), (''error'', JStr msg)], status)"

definition batch_body ::
    "real \<Rightarrow> youtube_api \<Rightarrow> string \<Rightarrow> exn + json \<Rightarrow> (exn + json \<times> nat) \<times> string list" where
  "batch_body REQUEST_DELAY api timestamp body =
     (case body of
        Inl e \<Rightarrow> (Inl e, [])
      | Inr data \<Rightarrow>
          (case (if \<not> truthy data then Inr True
                 else try_bind (py_in ''urls'' data) (\<lambda>b. Inr (\<not> b))) of
             Inl e \<Rightarrow> (Inl e, [])
           | Inr True \<Rightarrow> (Inr (error_response ''Missing URLs array in request body'' 400), [])
           | Inr False \<Rightarrow>
               (case py_getitem data ''urls'' of
                  Inl e \<Rightarrow> (Inl e, [])
                | Inr (JArr urls) \<Rightarrow>
                    if length urls = 0
                    then (Inr (error_response ''URLs must be a non-empty array'' 400), [])
                    else if length urls > 5
                    then (Inr (error_response (''Batch size limited to '' @ str_of_int 5 @ '' URLs'')
                                 400), [])
                    else
                      (case batch_loop REQUEST_DELAY api urls [] [] of
                         (Inl e, fetched) \<Rightarrow> (Inl e, fetched)
                       | (Inr results, fetched) \<Rightarrow>
                           (Inr (JObj [(''success'', JBool True),
                                       (''total_processed'', JNum (int (length results))),
                                       (''results'', JArr results),
                                       (''timestamp'', JStr timestamp)], 200),
                            fetched))
                | Inr _ \<Rightarrow> (Inr (error_response ''URLs must be a non-empty array'' 400), []))))"

definition transcript_get_batch_transcripts ::
    "int \<Rightarrow> real \<Rightarrow> youtube_api \<Rightarrow> real \<Rightarrow> string \<Rightarrow> exn + json \<Rightarrow> real list \<Rightarrow>
       (json \<times> nat) \<times> real list \<times> string list" where
  "transcript_get_batch_transcripts MAX_REQUESTS_PER_MINUTE REQUEST_DELAY api now timestamp body
       request_timestamps =
     (case rate_limit_check MAX_REQUESTS_PER_MINUTE now request_timestamps of
        (False, request_timestamps') \<Rightarrow>
          (error_response ''Rate limit exceeded. Try again later.'' 429, request_timestamps', [])
      | (True, request_timestamps') \<Rightarrow>
          (case batch_body REQUEST_DELAY api timestamp body of
             (Inl e, fetched) \<Rightarrow>
               (error_response (''Internal server error: '' @ str_of_exn e) 500,
                request_timestamps', fetched)
           | (Inr response, fetched) \<Rightarrow> (response, request_timestamps', fetched)))"

section \<open>Notions used to state the properties\<close>

text \<open>
  The characters a bracketed annotation may hold between its brackets (any but
  \<^verbatim>\<open>]\<close> and the line feed), and whether a text has a \<^verbatim>\<open>]\<close> before any line
  feed: that is when \<^verbatim>\<open>\[.*?\]\<close> matches an opening bracket followed by the text.
\<close>

definition bracket_body :: "char \<Rightarrow> bool" where
  "bracket_body c = (c \<noteq> CHR '']'' \<and> c \<noteq> CHR 0x0A)"

definition closes :: "string \<Rightarrow> bool" where
  "closes s = (case dropWhile bracket_body s of [] \<Rightarrow> False | c # r \<Rightarrow> c = CHR '']'')"

text \<open>
  The ISO-8601 duration text with the given hours, minutes and seconds, each
  present or absent, and the reading of one component (digits and its letter) from
  the state of a match, which sets group \<open>k\<close>.
\<close>

definition iso_component :: "nat option \<Rightarrow> char \<Rightarrow> string" where
  "iso_component n c = (case n of None \<Rightarrow> [] | Some k \<Rightarrow> str_of_nat k @ [c])"

definition iso_duration :: "nat option \<Rightarrow> nat option \<Rightarrow> nat option \<Rightarrow> string" where
  "iso_duration h m s =
     ''PT'' @ iso_component h CHR ''H'' @ iso_component m CHR ''M'' @ iso_component s CHR ''S''"

definition read_component :: "nat \<Rightarrow> char \<Rightarrow> mstate \<Rightarrow> mstate" where
  "read_component k c st =
     (if takeWhile isdigit (fst st) \<noteq> [] \<and>
         (case dropWhile isdigit (fst st) of [] \<Rightarrow> False | c' # r \<Rightarrow> c' = c)
      then (tl (dropWhile isdigit (fst st)), (k, takeWhile isdigit (fst st)) # snd st)
      else st)"

section \<open>Properties of the rate limiter\<close>

declare re_sub.simps [simp del]

declare str_of_nat.simps [simp del]

lemma rate_limit_check_fst:
  "fst (rate_limit_check mx now st) = (int (length (filter (\<lambda>ts. now - ts < 60) st)) < mx)"
  by (simp add: rate_limit_check_def Let_def)

lemma rate_limit_check_snd:
  "snd (rate_limit_check mx now st) =
     filter (\<lambda>ts. now - ts < 60) st @ (if fst (rate_limit_check mx now st) then [now] else [])"
  by (simp add: rate_limit_check_def Let_def)

lemma rate_limit_check_purged:
  "rate_limit_check mx now (filter (\<lambda>ts. now - ts < 60) st) = rate_limit_check mx now st"
  by (simp add: rate_limit_check_def)

lemma rate_limit_check_fresh:
  "t \<in> set (snd (rate_limit_check mx now st)) \<Longrightarrow> now - t < 60"
  by (auto simp: rate_limit_check_snd split: if_splits)

lemma rate_limit_check_length:
  "int (length st) \<le> mx \<Longrightarrow> int (length (snd (rate_limit_check mx now st))) \<le> mx"
proof -
  assume b: "int (length st) \<le> mx"
  have "int (length (filter (\<lambda>ts. now - ts < 60) st)) \<le> int (length st)"
    using length_filter_le [of "\<lambda>ts. now - ts < 60" st] by linarith
  with b have k: "int (length (filter (\<lambda>ts. now - ts < 60) st)) \<le> mx" by linarith
  show ?thesis
  proof (cases "fst (rate_limit_check mx now st)")
    case True
    then show ?thesis by (simp add: rate_limit_check_snd rate_limit_check_fst)
  next
    case False
    then show ?thesis using k by (simp add: rate_limit_check_snd)
  qed
qed

lemma rate_limit_calls_length:
  "int (length st) \<le> mx \<Longrightarrow> int (length (snd (rate_limit_calls mx st nows))) \<le> mx"
  by (induction nows arbitrary: st) (simp_all add: Let_def rate_limit_check_length)

lemma rate_limit_calls_fresh:
  "nows \<noteq> [] \<Longrightarrow> t \<in> set (snd (rate_limit_calls mx st nows)) \<Longrightarrow> last nows - t < 60"
proof (induction nows arbitrary: st)
  case Nil
  then show ?case by simp
next
  case (Cons now nows)
  show ?case
  proof (cases "nows = []")
    case True
    then show ?thesis using Cons.prems(2) by (simp add: Let_def rate_limit_check_fresh)
  next
    case False
    then show ?thesis using Cons.IH [OF False] Cons.prems(2) by (simp add: Let_def)
  qed
qed

lemma rate_limit_reject_keeps_state:
  "int (length st) \<le> mx \<Longrightarrow> \<not> fst (rate_limit_check mx now st) \<Longrightarrow>
     snd (rate_limit_check mx now st) = st"
proof -
  assume b: "int (length st) \<le> mx" and r: "\<not> fst (rate_limit_check mx now st)"
  let ?k = "filter (\<lambda>ts. now - ts < 60) st"
  have "int (length ?k) \<le> int (length st)"
    using length_filter_le [of "\<lambda>ts. now - ts < 60" st] by linarith
  moreover from r have "mx \<le> int (length ?k)" by (simp add: rate_limit_check_fst)
  ultimately have "length ?k = length st" using b by linarith
  then have "?k = st" by (metis filter_True length_filter_less less_irrefl) 
  then show ?thesis using r by (simp add: rate_limit_check_snd)
qed

lemma calls_in_window:
  "\<forall>n\<in>set nows. \<forall>t\<in>set st \<union> set nows. n - t < 60 \<Longrightarrow> int (length st) \<le> mx \<Longrightarrow>
   fst (rate_limit_calls mx st nows) =
     replicate (min (length nows) (nat (mx - int (length st)))) True @
     replicate (length nows - nat (mx - int (length st))) False"
proof (induction nows arbitrary: st)
  case Nil
  then show ?case by simp
next
  case (Cons now nows)
  have keep: "filter (\<lambda>ts. now - ts < 60) st = st"
    using Cons.prems(1) by (auto simp: filter_id_conv)
  show ?case
  proof (cases "int (length st) \<ge> mx")
    case True
    with Cons.prems(2) have eq: "int (length st) = mx" by simp
    have step: "rate_limit_check mx now st = (False, st)"
      using True keep by (simp add: rate_limit_check_def)
    have "fst (rate_limit_calls mx st nows) =
       replicate (min (length nows) (nat (mx - int (length st)))) True @
       replicate (length nows - nat (mx - int (length st))) False"
      using Cons.prems by (intro Cons.IH) auto
    then show ?thesis using step eq by simp
  next
    case False
    have step: "rate_limit_check mx now st = (True, st @ [now])"
      using False keep by (simp add: rate_limit_check_def)
    have "fst (rate_limit_calls mx (st @ [now]) nows) =
       replicate (min (length nows) (nat (mx - int (length (st @ [now]))))) True @
       replicate (length nows - nat (mx - int (length (st @ [now])))) False"
      using Cons.prems False by (intro Cons.IH) auto
    moreover have "nat (mx - int (length st)) = Suc (nat (mx - int (length (st @ [now]))))"
      using False by simp
    ultimately show ?thesis using step by simp
  qed
qed

lemma sorted_window:
  assumes "sorted nows" "nows \<noteq> []" "last nows - hd nows < (60::real)"
    and "n \<in> set nows" "t \<in> set nows"
  shows "n - t < 60"
proof -
  have "hd nows \<le> t" using assms(1,2,5) by (cases nows) auto
  moreover have "n \<le> last nows" using assms(1,2,4)
    by (metis in_set_conv_nth last_conv_nth sorted_nth_mono diff_less length_greater_0_conv
        less_one nat_less_le order_refl Suc_pred less_Suc_eq_le)
  ultimately show ?thesis using assms(3) by linarith
qed

lemma admissions_then_reject:
  assumes "0 \<le> mx" "length nows = nat mx + 1" "sorted nows" "last nows - hd nows < 60"
  shows "fst (rate_limit_calls mx [] nows) = replicate (nat mx) True @ [False]"
proof -
  have ne: "nows \<noteq> []" using assms(2) by auto
  have "\<forall>n\<in>set nows. \<forall>t\<in>set [] \<union> set nows. n - t < 60"
    using sorted_window [OF assms(3) ne assms(4)] by auto
  then have "fst (rate_limit_calls mx [] nows) =
     replicate (min (length nows) (nat (mx - int (length ([]::real list))))) True @
     replicate (length nows - nat (mx - int (length ([]::real list)))) False"
    using assms(1) by (intro calls_in_window) auto
  then show ?thesis using assms(1,2) by simp
qed

lemma rate_limit_calls_purged:
  "rate_limit_calls mx (filter (\<lambda>ts. now - ts < 60) st) (now # nows) = rate_limit_calls mx st (now # nows)"
  by (simp add: rate_limit_check_purged)

lemma capacity_freed:
  assumes "int (length st) = mx"
  shows "fst (rate_limit_calls mx st (replicate (Suc (length (filter (\<lambda>ts. 60 \<le> now - ts) st))) now)) =
     replicate (length (filter (\<lambda>ts. 60 \<le> now - ts) st)) True @ [False]"
proof -
  let ?k = "filter (\<lambda>ts. now - ts < 60) st"
  let ?e = "length (filter (\<lambda>ts. 60 \<le> now - ts) st)"
  have "filter (\<lambda>ts. 60 \<le> now - ts) st = filter (\<lambda>ts. \<not> now - ts < 60) st"
    by (rule filter_cong) auto
  then have len: "length ?k + ?e = length st"
    using sum_length_filter_compl [of "\<lambda>ts. now - ts < 60" st] by simp
  have "fst (rate_limit_calls mx ?k (replicate (Suc ?e) now)) =
     replicate (min (length (replicate (Suc ?e) now)) (nat (mx - int (length ?k)))) True @
     replicate (length (replicate (Suc ?e) now) - nat (mx - int (length ?k))) False"
    using assms len by (intro calls_in_window) auto
  moreover have "nat (mx - int (length ?k)) = ?e" using assms len by simp
  ultimately have "fst (rate_limit_calls mx ?k (now # replicate ?e now)) = replicate ?e True @ [False]"
    by simp
  then show ?thesis using rate_limit_calls_purged [of mx now st "replicate ?e now"] by simp
qed

text \<open>
  Claim C3. On every call with clock value \<open>now\<close>, \<open>rate_limit_check\<close> first drops
  every stored timestamp that is 60 seconds old or older (in particular every one older
  than 60 seconds); if the number of remaining timestamps is at least the configured
  maximum it returns False and stores the purged list without \<open>now\<close>; otherwise it
  stores the purged list with \<open>now\<close> appended and returns True. Consequently, starting
  from the empty list, of \<open>N + 1\<close> calls whose clock values lie in one window of less
  than 60 seconds (\<open>N\<close> the configured maximum) the first \<open>N\<close> are admitted and the
  last is rejected; and when the list is full and \<open>e\<close> of its entries have expired at
  \<open>now\<close>, exactly \<open>e\<close> further calls at \<open>now\<close> are admitted before the next
  rejection.
\<close>

theorem rate_limit_check_sliding_window:
  fixes mx :: int and now :: real and st nows :: "real list"
  shows "(\<forall>t. 60 < now - t \<longrightarrow> t \<notin> set (snd (rate_limit_check mx now st)))
    \<and> (mx \<le> int (length (filter (\<lambda>ts. now - ts < 60) st)) \<longrightarrow>
          rate_limit_check mx now st = (False, filter (\<lambda>ts. now - ts < 60) st))
    \<and> (int (length (filter (\<lambda>ts. now - ts < 60) st)) < mx \<longrightarrow>
          rate_limit_check mx now st = (True, filter (\<lambda>ts. now - ts < 60) st @ [now]))
    \<and> (0 \<le> mx \<and> length nows = nat mx + 1 \<and> sorted nows \<and> last nows - hd nows < 60 \<longrightarrow>
          fst (rate_limit_calls mx [] nows) = replicate (nat mx) True @ [False])
    \<and> (int (length st) = mx \<longrightarrow>
          fst (rate_limit_calls mx st
                 (replicate (Suc (length (filter (\<lambda>ts. 60 \<le> now - ts) st))) now)) =
          replicate (length (filter (\<lambda>ts. 60 \<le> now - ts) st)) True @ [False])"
proof (intro conjI allI impI)
  fix t assume "60 < now - t"
  then show "t \<notin> set (snd (rate_limit_check mx now st))"
    using rate_limit_check_fresh [of t mx now st] by auto
next
  assume "mx \<le> int (length (filter (\<lambda>ts. now - ts < 60) st))"
  then show "rate_limit_check mx now st = (False, filter (\<lambda>ts. now - ts < 60) st)"
    by (simp add: rate_limit_check_def)
next
  assume "int (length (filter (\<lambda>ts. now - ts < 60) st)) < mx"
  then show "rate_limit_check mx now st = (True, filter (\<lambda>ts. now - ts < 60) st @ [now])"
    by (simp add: rate_limit_check_def)
next
  assume "0 \<le> mx \<and> length nows = nat mx + 1 \<and> sorted nows \<and> last nows - hd nows < 60"
  then show "fst (rate_limit_calls mx [] nows) = replicate (nat mx) True @ [False]"
    using admissions_then_reject [of mx nows] by simp
next
  assume "int (length st) = mx"
  then show "fst (rate_limit_calls mx st
                 (replicate (Suc (length (filter (\<lambda>ts. 60 \<le> now - ts) st))) now)) =
          replicate (length (filter (\<lambda>ts. 60 \<le> now - ts) st)) True @ [False]"
    by (rule capacity_freed)
qed

theorem rate_limit_check_sliding_window_witness:
  "rate_limit_check 2 100 [30, 50] = (True, [50, 100])
   \<and> rate_limit_check 2 100 [45, 50] = (False, [45, 50])
   \<and> fst (rate_limit_calls 2 [] [0, 10, 20]) = [True, True, False]
   \<and> fst (rate_limit_calls 2 [30, 50] [100, 100]) = [True, False]"
proof -
  have a: "rate_limit_check 2 100 [30, 50] = (True, [50, 100])"
    by (simp add: rate_limit_check_def)
  have b: "rate_limit_check 2 100 [45, 50] = (False, [45, 50])"
    by (simp add: rate_limit_check_def)
  have c: "fst (rate_limit_calls 2 [] [0, 10, 20]) = [True, True, False]"
    by (simp add: rate_limit_check_def Let_def)
  have d: "fst (rate_limit_calls 2 [30, 50] [100, 100]) = [True, False]"
    by (simp add: rate_limit_check_def Let_def)
  show ?thesis
    using rate_limit_check_sliding_window
      [where mx = 2 and now = 100 and st = "[30, 50]" and nows = "[0, 10, 20]"] a b c d
    by simp
qed

lemma rate_limit_check_bound:
  assumes "int (length st) \<le> max mx 0"
  shows "int (length (snd (rate_limit_check mx now st))) \<le> max mx 0"
proof (cases "0 \<le> mx")
  case True
  then show ?thesis using assms rate_limit_check_length [of st mx now] by simp
next
  case False
  then have "st = []" using assms by simp
  then show ?thesis using False by (simp add: rate_limit_check_def)
qed

lemma rate_limit_calls_bound:
  "int (length st) \<le> max mx 0 \<Longrightarrow>
     int (length (snd (rate_limit_calls mx st nows))) \<le> max mx 0"
  by (induction nows arbitrary: st) (simp_all add: Let_def rate_limit_check_bound)

lemma rate_limit_reject_unchanged:
  assumes "int (length st) \<le> max mx 0" "\<not> fst (rate_limit_check mx now st)"
  shows "rate_limit_check mx now st = (False, st)"
proof (cases "0 \<le> mx")
  case True
  then have "snd (rate_limit_check mx now st) = st"
    using assms rate_limit_reject_keeps_state [of st mx now] by simp
  then show ?thesis using assms(2) by (metis prod.collapse)
next
  case False
  then have "st = []" using assms(1) by simp
  then show ?thesis using False by (simp add: rate_limit_check_def)
qed

lemma rate_limit_reachable_reject:
  "\<not> fst (rate_limit_check mx now (snd (rate_limit_calls mx [] nows))) \<Longrightarrow>
     rate_limit_check mx now (snd (rate_limit_calls mx [] nows)) =
       (False, snd (rate_limit_calls mx [] nows))"
  using rate_limit_calls_bound [of "[]" mx nows] rate_limit_reject_unchanged by simp

text \<open>
  Claim C10. After every call of a run that starts from the empty list the stored list
  has at most as many entries as the configured maximum, or none when the maximum is
  negative, and every entry is less than 60 seconds older than the clock value of that
  call (the last call of the run). A call from any list within the maximum keeps it
  within the maximum, and after any call every stored entry is less than 60 seconds
  older than its clock value. A rejected call stores the purged list and appends
  nothing; on every list reached from the empty list the purge of a rejected call
  removes nothing, so the call returns the list as it was.
\<close>

theorem rate_limit_reachable_state:
  fixes mx :: int and now :: real and st nows :: "real list"
  shows "int (length (snd (rate_limit_calls mx [] nows))) \<le> max mx 0
    \<and> (nows \<noteq> [] \<longrightarrow> (\<forall>t\<in>set (snd (rate_limit_calls mx [] nows)). last nows - t < 60))
    \<and> (int (length st) \<le> mx \<longrightarrow> int (length (snd (rate_limit_check mx now st))) \<le> mx)
    \<and> (\<forall>t\<in>set (snd (rate_limit_check mx now st)). now - t < 60)
    \<and> (\<not> fst (rate_limit_check mx now st) \<longrightarrow>
          snd (rate_limit_check mx now st) = filter (\<lambda>ts. now - ts < 60) st)
    \<and> (\<not> fst (rate_limit_check mx now (snd (rate_limit_calls mx [] nows))) \<longrightarrow>
          rate_limit_check mx now (snd (rate_limit_calls mx [] nows)) =
            (False, snd (rate_limit_calls mx [] nows)))"
proof (intro conjI impI ballI)
  show "int (length (snd (rate_limit_calls mx [] nows))) \<le> max mx 0"
    using rate_limit_calls_bound [of "[]" mx nows] by simp
next
  fix t assume "nows \<noteq> []" and "t \<in> set (snd (rate_limit_calls mx [] nows))"
  then show "last nows - t < 60" by (rule rate_limit_calls_fresh)
next
  assume "int (length st) \<le> mx"
  then show "int (length (snd (rate_limit_check mx now st))) \<le> mx"
    by (rule rate_limit_check_length)
next
  fix t assume "t \<in> set (snd (rate_limit_check mx now st))"
  then show "now - t < 60" by (rule rate_limit_check_fresh)
next
  assume "\<not> fst (rate_limit_check mx now st)"
  then show "snd (rate_limit_check mx now st) = filter (\<lambda>ts. now - ts < 60) st"
    by (simp add: rate_limit_check_snd)
next
  assume "\<not> fst (rate_limit_check mx now (snd (rate_limit_calls mx [] nows)))"
  then show "rate_limit_check mx now (snd (rate_limit_calls mx [] nows)) =
            (False, snd (rate_limit_calls mx [] nows))"
    by (rule rate_limit_reachable_reject)
qed

theorem rate_limit_reachable_state_witness:
  "snd (rate_limit_calls 2 [] [0, 10, 65]) = [10, 65]
   \<and> int (length (snd (rate_limit_calls 2 [] [0, 10, 65]))) \<le> 2
   \<and> (65::real) - 10 < 60 \<and> (65::real) - 65 < 60
   \<and> rate_limit_check 2 68 (snd (rate_limit_calls 2 [] [0, 10, 65])) = (False, [10, 65])"
proof -
  have run: "snd (rate_limit_calls 2 [] [0, 10, 65]) = [10, 65]"
    by (simp add: rate_limit_check_def Let_def)
  have rej: "\<not> fst (rate_limit_check 2 68 [10, 65])"
    by (simp add: rate_limit_check_def)
  show ?thesis
    using rate_limit_reachable_state
      [where mx = 2 and nows = "[0, 10, 65]" and st = "[10, 65]" and now = 68]
    unfolding run using rej by simp
qed

text \<open>
  Claim C10 in its original wording says that a rejected call changes the state by
  its purge, and bounds the length by the configured maximum whatever it is. No run
  from the empty list reaches a list that a rejected call changes: a rejection needs
  as many fresh entries as the maximum, and the list never holds more than that. With
  the maximum -1 the list is empty after every call, and 0 is more than -1.
\<close>

theorem rate_limit_rejection_counterexample:
  "\<not> (\<exists>mx nows now.
        \<not> fst (rate_limit_check mx now (snd (rate_limit_calls mx [] nows))) \<and>
        snd (rate_limit_check mx now (snd (rate_limit_calls mx [] nows))) \<noteq>
          snd (rate_limit_calls mx [] nows))
   \<and> rate_limit_check 2 68 (snd (rate_limit_calls 2 [] [0, 10, 65])) =
       (False, snd (rate_limit_calls 2 [] [0, 10, 65]))
   \<and> \<not> int (length (snd (rate_limit_calls (- 1) [] [0]))) \<le> - 1"
proof (intro conjI)
  show "\<not> (\<exists>mx nows now.
        \<not> fst (rate_limit_check mx now (snd (rate_limit_calls mx [] nows))) \<and>
        snd (rate_limit_check mx now (snd (rate_limit_calls mx [] nows))) \<noteq>
          snd (rate_limit_calls mx [] nows))"
    using rate_limit_reachable_reject by (metis snd_conv)
  show "rate_limit_check 2 68 (snd (rate_limit_calls 2 [] [0, 10, 65])) =
       (False, snd (rate_limit_calls 2 [] [0, 10, 65]))"
    by (simp add: rate_limit_check_def Let_def)
  show "\<not> int (length (snd (rate_limit_calls (- 1) [] [0]))) \<le> - 1"
    by (simp add: rate_limit_check_def Let_def)
qed

section \<open>Properties of the matcher\<close>

lemma rx_match_Chr:
  "rx_match (Chr p) (s, g) = (case s of [] \<Rightarrow> [] | c # cs \<Rightarrow> if p c then [(cs, g)] else [])"
  by (simp split: list.splits)

lemma rx_match_lit:
  "rx_match (lit w) (s, g) = (if str_startswith s w then [(drop (length w) s, g)] else [])"
proof (induction w arbitrary: s)
  case Nil
  then show ?case by simp
next
  case (Cons a w)
  then show ?case by (cases s) auto
qed

lemma times_iter_Chr:
  "times_iter n (rx_match (Chr p)) (s, g) =
     (if n \<le> length s \<and> (\<forall>c\<in>set (take n s). p c) then [(drop n s, g)] else [])"
proof (induction n arbitrary: s)
  case 0
  then show ?case by simp
next
  case (Suc n)
  then show ?case by (cases s) auto
qed

lemma greedy_iter_Chr_seq:
  assumes "\<And>c cs g'. p c \<Longrightarrow> F (c # cs, g') = []"
  shows "length s \<le> k \<Longrightarrow>
     concat (map F (greedy_iter k (rx_match (Chr p)) (s, g))) = F (dropWhile p s, g)"
proof (induction k arbitrary: s)
  case 0
  then show ?case by simp
next
  case (Suc k)
  show ?case
  proof (cases s)
    case Nil
    then show ?thesis by simp
  next
    case (Cons c cs)
    then show ?thesis using Suc assms by auto
  qed
qed


lemma lazy_iter_Chr_seq:
  "length s \<le> k \<Longrightarrow>
     concat (map F (lazy_iter k (rx_match (Chr p)) (s, g))) =
       F (s, g) @ (case s of [] \<Rightarrow> []
                   | c # cs \<Rightarrow> if p c then concat (map F (lazy_iter (k - 1) (rx_match (Chr p)) (cs, g)))
                               else [])"
  by (cases k; cases s) auto








section \<open>Properties of the cleaning step\<close>



lemma closes_Nil: "\<not> closes []"
  by (simp add: closes_def)


















lemma clean_music: "clean_transcript ''[Music]'' = []"
  by code_simp











section \<open>Properties of transcript retrieval\<close>

lemma finish_transcript_cases:
  "finish_transcript t = (text, ok, msg) \<Longrightarrow>
     (ok \<longrightarrow> t \<noteq> [] \<and> text = clean_transcript t \<and> msg = []) \<and>
     (\<not> ok \<longrightarrow> text = [] \<and> msg = ''No transcript text extracted'')"
  by (auto simp: finish_transcript_def split: if_splits)

lemma time_sleep_cases:
  "time_sleep d = (if d < 0 then Inl (Exception ''sleep length must be non-negative'') else Inr ())"
  by (simp add: time_sleep_def)





lemma app_fetch_success:
  assumes "app_fetch_transcript d api v = Inr (text, True, msg)"
  shows "msg = [] \<and> (\<exists>raw. raw \<noteq> [] \<and> text = clean_transcript raw)"
  using assms
  by (auto simp: app_fetch_transcript_def app_fetch_transcript_body_def time_sleep_def
        finish_transcript_def Let_def split: sum.splits if_splits)

lemma transcript_fetch_success:
  assumes "transcript_fetch_transcript d api v = Inr (text, True, msg)"
  shows "msg = [] \<and> (\<exists>raw. raw \<noteq> [] \<and> text = clean_transcript raw)"
  using assms
  by (auto simp: transcript_fetch_transcript_def transcript_fetch_transcript_body_def time_sleep_def
        finish_transcript_def Let_def split: sum.splits if_splits)



text \<open>
  Claim C2. A provider that answers the first request with the single segment
  \<^verbatim>\<open>[Music]\<close> makes \<^verbatim>\<open>fetch_transcript\<close> of both files return success with an
  empty text and an empty error message: the text is tested before it is cleaned, and
  cleaning removes all of it.
\<close>

theorem fetch_transcript_success_with_empty_text:
  "app_fetch_transcript 1
     \<lparr>get_transcript = (\<lambda>v l. Inr [[(''text'', ''[Music]'')]]),
      list_transcripts = (\<lambda>v. Inr [])\<rparr> ''dQw4w9WgXcQ'' = Inr ([], True, [])
   \<and> transcript_fetch_transcript 1
     \<lparr>get_transcript = (\<lambda>v l. Inr [[(''text'', ''[Music]'')]]),
      list_transcripts = (\<lambda>v. Inr [])\<rparr> ''dQw4w9WgXcQ'' = Inr ([], True, [])"
  by (simp add: app_fetch_transcript_def app_fetch_transcript_body_def
      transcript_fetch_transcript_def transcript_fetch_transcript_body_def time_sleep_def
      join_items_def finish_transcript_def clean_music)



section \<open>Properties of video id extraction\<close>

lemma split_from_not_Nil: "split_from sep cur s \<noteq> []"
  by (induction sep cur s rule: split_from.induct) auto

lemma item_last_split: "\<exists>x. item_last (str_split s sep) = Inr x"
  using split_from_not_Nil [of sep "[]" s]
  by (cases "split_from sep [] s") (auto simp: str_split_def)

lemma item_first_split: "\<exists>x. item_first (str_split s sep) = Inr x"
  using split_from_not_Nil [of sep "[]" s]
  by (cases "split_from sep [] s") (auto simp: str_split_def)

lemma marker_piece:
  "\<exists>v. try_bind (item_last (str_split u marker)) (\<lambda>rest.
        try_bind (item_first (str_split rest sep)) (\<lambda>video_id. Inr (Some video_id))) = Inr (Some v)"
proof -
  obtain rest where r: "item_last (str_split u marker) = Inr rest"
    using item_last_split by blast
  obtain v where v: "item_first (str_split rest sep) = Inr v"
    using item_first_split by blast
  show ?thesis using r v by simp
qed

lemma video_id_candidate_total: "\<exists>c. video_id_candidate u = Inr c"
  using marker_piece [of u "''watch?v=''" "''&''"] marker_piece [of u "''youtu.be/''" "''?''"]
    marker_piece [of u "''embed/''" "''?''"]
  by (auto simp: video_id_candidate_def split: option.splits)

lemma app_extract_video_id_candidate:
  "video_id_candidate u = Inr c \<Longrightarrow>
   app_extract_video_id u =
     Inr (case c of None \<Rightarrow> None | Some v \<Rightarrow> if length v = 11 then Some v else None)"
  by (auto simp: app_extract_video_id_def split: option.splits)

lemma transcript_extract_video_id_candidate:
  "video_id_candidate u = Inr c \<Longrightarrow> transcript_extract_video_id u = Inr c"
  by (simp add: transcript_extract_video_id_def)

lemma app_extract_video_id_total: "\<exists>r. app_extract_video_id u = Inr r"
  using video_id_candidate_total [of u] app_extract_video_id_candidate by blast

lemma app_extract_video_id_length:
  "app_extract_video_id u = Inr (Some v) \<Longrightarrow> length v = 11"
  using video_id_candidate_total [of u]
  by (auto simp: app_extract_video_id_candidate split: option.splits if_splits)

lemma group_video_id:
  assumes "st \<in> set (rx_match video_id_pattern (s, []))"
  shows "\<exists>t. group st 1 = Some t \<and> length t = 11"
proof -
  let ?cls = "\<lambda>c. c \<notin> {CHR 0x22, CHR ''&'', CHR ''?'', CHR ''/''} \<and> \<not> isspace c"
  obtain A where A: "video_id_pattern = Seq A (Group 1 (Times 11 (Chr ?cls)))"
    by (simp add: video_id_pattern_def)
  from assms obtain s' g' where
    in_g: "st \<in> set (rx_match (Group 1 (Times 11 (Chr ?cls))) (s', g'))"
    unfolding A by (auto simp del: rx_match.simps(1,9,10) times_iter.simps)
  have "rx_match (Group 1 (Times 11 (Chr ?cls))) (s', g') =
      map (\<lambda>st'. (fst st', (1, take (length s' - length (fst st')) s') # snd st'))
        (times_iter 11 (rx_match (Chr ?cls)) (s', g'))"
    by (simp del: rx_match.simps(1) times_iter.simps)
  also have "\<dots> = (if 11 \<le> length s' \<and> (\<forall>c\<in>set (take 11 s'). ?cls c)
                    then [(drop 11 s', (1, take 11 s') # g')] else [])"
    unfolding times_iter_Chr by simp
  finally have "11 \<le> length s' \<and> st = (drop 11 s', (1, take 11 s') # g')"
    using in_g by (auto split: if_splits)
  then show ?thesis by (simp add: group_def)
qed

lemma re_match_video_id:
  "re_match video_id_pattern s = Some m \<Longrightarrow> \<exists>t. group m 1 = Some t \<and> length t = 11"
  using group_video_id [of m s]
  by (cases "rx_match video_id_pattern (s, [])") (auto simp: re_match_def)

lemma re_search_video_id:
  "re_search video_id_pattern s = Some m \<Longrightarrow> \<exists>t. group m 1 = Some t \<and> length t = 11"
proof (induction s)
  case Nil
  then show ?case using re_match_video_id by simp
next
  case (Cons c cs)
  then show ?case using re_match_video_id [of "c # cs" m]
    by (cases "re_match video_id_pattern (c # cs)") auto
qed

lemma transcript_extract_fallback_length:
  assumes "\<not> str_contains u ''watch?v=''" "\<not> str_contains u ''youtu.be/''"
    "\<not> str_contains u ''embed/''" "transcript_extract_video_id u = Inr (Some v)"
  shows "length v = 11"
  using assms re_search_video_id [of u]
  by (auto simp: transcript_extract_video_id_def video_id_candidate_def split: option.splits)

lemma str_startswith_take: "str_startswith s w = (take (length w) s = w)"
  by (induction s w rule: str_startswith.induct) auto

lemma str_startswith_append: "str_startswith (w @ s) w"
  by (simp add: str_startswith_take)

lemma str_startswith_long:
  "length w \<le> length x \<Longrightarrow> str_startswith (x @ y) w = str_startswith x w"
  by (simp add: str_startswith_take)

lemma no_overlap:
  assumes unb: "\<And>k. 0 < k \<Longrightarrow> k < length sep \<Longrightarrow> take k sep \<noteq> drop (length sep - k) sep"
    and p: "0 < length p" "length p < length sep"
  shows "\<not> str_startswith (p @ sep @ post) sep"
proof
  assume "str_startswith (p @ sep @ post) sep"
  then have "take (length sep) (p @ sep @ post) = sep" by (simp add: str_startswith_take)
  then have "p @ take (length sep - length p) sep = sep" using p by simp
  then have "drop (length p) (p @ take (length sep - length p) sep) = drop (length p) sep"
    by simp
  then have "take (length sep - length p) sep = drop (length sep - (length sep - length p)) sep"
    using p by simp
  moreover have "0 < length sep - length p" "length sep - length p < length sep"
    using p by linarith+
  ultimately show False using unb by blast
qed

lemma str_contains_Cons:
  "\<not> str_contains (c # cs) sub \<Longrightarrow> \<not> str_startswith (c # cs) sub \<and> \<not> str_contains cs sub"
  by simp

lemma str_contains_here: "str_startswith s sub \<Longrightarrow> str_contains s sub"
  by (cases s) (auto elim: str_startswith.elims)

lemma str_contains_append: "str_contains (pre @ sep @ post) sep"
proof (induction pre)
  case Nil
  then show ?case using str_contains_here [OF str_startswith_append] by simp
next
  case (Cons a pre)
  then show ?case by simp
qed

lemma not_startswith_boundary:
  assumes unb: "\<And>k. 0 < k \<Longrightarrow> k < length sep \<Longrightarrow> take k sep \<noteq> drop (length sep - k) sep"
    and nc: "\<not> str_startswith (c # b) sep" and short: "\<not> str_contains post sep \<or> post = []"
  shows "length (c # b) < length sep \<Longrightarrow> \<not> str_startswith ((c # b) @ sep @ post) sep"
  using no_overlap [OF unb, of "c # b" post] by simp

lemma str_replace_suffix:
  assumes unb: "\<And>k. 0 < k \<Longrightarrow> k < length old \<Longrightarrow> take k old \<noteq> drop (length old - k) old"
    and ne: "old \<noteq> []"
  shows "\<not> str_contains body old \<Longrightarrow> str_replace (body @ old) old new = body @ new"
proof (induction body)
  case Nil
  obtain c cs where o: "old = c # cs" using ne by (cases old) auto
  have "str_startswith (c # cs) (c # cs)" using str_startswith_append [of "c # cs" "[]"] by simp
  then show ?case unfolding o by simp
next
  case (Cons c b)
  have nb: "\<not> str_contains b old" and ns: "\<not> str_startswith (c # b) old"
    using Cons.prems by simp_all
  have "\<not> str_startswith ((c # b) @ old) old"
  proof (cases "length old \<le> length (c # b)")
    case True
    then show ?thesis using ns str_startswith_long [of old "c # b" old] by simp
  next
    case False
    then show ?thesis using no_overlap [OF unb, of "c # b" "[]"] by simp
  qed
  then show ?case using Cons.IH [OF nb] by simp
qed

lemma split_from_none:
  "\<not> str_contains s sep \<Longrightarrow> split_from sep cur s = [cur @ s]"
  by (induction s arbitrary: cur) auto

lemma split_from_last:
  assumes unb: "\<And>k. 0 < k \<Longrightarrow> k < length sep \<Longrightarrow> take k sep \<noteq> drop (length sep - k) sep"
    and ne: "sep \<noteq> []" and np: "\<not> str_contains post sep"
  shows "last (split_from sep cur (pre @ sep @ post)) = post"
proof (induction "length pre" arbitrary: pre cur rule: less_induct)
  case less
  obtain c cs where o: "sep = c # cs" using ne by (cases sep) auto
  show ?case
  proof (cases pre)
    case Nil
    have "str_startswith (sep @ post) sep" by (rule str_startswith_append)
    then have "split_from sep cur (sep @ post) = cur # split_from sep [] post"
      using ne unfolding o by simp
    then show ?thesis using Nil split_from_none [OF np, of "[]"] by simp
  next
    case (Cons a p)
    show ?thesis
    proof (cases "str_startswith (pre @ sep @ post) sep")
      case True
      have long: "length sep \<le> length pre"
      proof (rule ccontr)
        assume "\<not> length sep \<le> length pre"
        then have "\<not> str_startswith (pre @ sep @ post) sep"
          using no_overlap [OF unb, of pre post] Cons by simp
        with True show False by contradiction
      qed
      have lt: "length (drop (length sep) pre) < length pre"
        using long ne Cons by simp
      have "split_from sep cur (pre @ sep @ post) =
          cur # split_from sep [] (drop (length sep) (pre @ sep @ post))"
        using True ne Cons by simp
      also have "drop (length sep) (pre @ sep @ post) = drop (length sep) pre @ sep @ post"
        using long by simp
      finally show ?thesis
        using less.hyps [OF lt, of "[]"] split_from_not_Nil [of sep "[]" "drop (length sep) pre @ sep @ post"]
        by simp
    next
      case False
      have "split_from sep cur (pre @ sep @ post) = split_from sep (cur @ [a]) (p @ sep @ post)"
        using False Cons by simp
      then show ?thesis using less.hyps [of p "cur @ [a]"] Cons by simp
    qed
  qed
qed

lemma split_from_first_char:
  "hd (split_from [c] cur s) = cur @ takeWhile (\<lambda>x. x \<noteq> c) s"
proof (induction s arbitrary: cur)
  case Nil
  then show ?case by simp
next
  case (Cons a s)
  then show ?case by (cases "a = c") auto
qed

lemma item_last_eq: "xs \<noteq> [] \<Longrightarrow> item_last xs = Inr (last xs)"
  by (cases xs) auto

lemma item_first_eq: "xs \<noteq> [] \<Longrightarrow> item_first xs = Inr (hd xs)"
  by (cases xs) auto

lemma marker_piece_value:
  assumes unb: "\<And>k. 0 < k \<Longrightarrow> k < length marker \<Longrightarrow>
        take k marker \<noteq> drop (length marker - k) marker"
    and ne: "marker \<noteq> []"
    and np: "\<not> str_contains (tok @ rest) marker"
    and tok: "d \<notin> set tok" and rest: "rest = [] \<or> hd rest = d"
  shows "try_bind (item_last (str_split (pre @ marker @ tok @ rest) marker)) (\<lambda>r.
         try_bind (item_first (str_split r [d])) (\<lambda>video_id. Inr (Some video_id))) =
         Inr (Some tok)"
proof -
  have l: "item_last (str_split (pre @ marker @ tok @ rest) marker) = Inr (tok @ rest)"
    using split_from_last [OF unb ne np, of "[]" pre]
      split_from_not_Nil [of marker "[]" "pre @ marker @ tok @ rest"]
    by (simp add: str_split_def item_last_eq)
  have "takeWhile (\<lambda>x. x \<noteq> d) (tok @ rest) = tok"
  proof -
    have "takeWhile (\<lambda>x. x \<noteq> d) (tok @ rest) = tok @ takeWhile (\<lambda>x. x \<noteq> d) rest"
      by (rule takeWhile_append2) (use tok in auto)
    moreover have "takeWhile (\<lambda>x. x \<noteq> d) rest = []"
      using rest by (cases rest) auto
    ultimately show ?thesis by simp
  qed
  then have f: "item_first (str_split (tok @ rest) [d]) = Inr tok"
    using split_from_first_char [of d "[]" "tok @ rest"] split_from_not_Nil [of "[d]" "[]" "tok @ rest"]
    by (simp add: str_split_def item_first_eq)
  show ?thesis using l f by simp
qed

lemma unbordered_watch:
  "0 < k \<Longrightarrow> k < length ''watch?v='' \<Longrightarrow>
     take k ''watch?v='' \<noteq> drop (length ''watch?v='' - k) ''watch?v=''"
proof -
  assume "0 < k" "k < length ''watch?v=''"
  then have "k \<in> {1, 2, 3, 4, 5, 6, 7}" by auto
  then show ?thesis by (elim insertE emptyE) (simp_all add: numeral_nat)
qed

lemma unbordered_youtu_be:
  "0 < k \<Longrightarrow> k < length ''youtu.be/'' \<Longrightarrow>
     take k ''youtu.be/'' \<noteq> drop (length ''youtu.be/'' - k) ''youtu.be/''"
proof -
  assume "0 < k" "k < length ''youtu.be/''"
  then have "k \<in> {1, 2, 3, 4, 5, 6, 7, 8}" by auto
  then show ?thesis by (elim insertE emptyE) (simp_all add: numeral_nat)
qed

lemma unbordered_embed:
  "0 < k \<Longrightarrow> k < length ''embed/'' \<Longrightarrow>
     take k ''embed/'' \<noteq> drop (length ''embed/'' - k) ''embed/''"
proof -
  assume "0 < k" "k < length ''embed/''"
  then have "k \<in> {1, 2, 3, 4, 5}" by auto
  then show ?thesis by (elim insertE emptyE) (simp_all add: numeral_nat)
qed

lemma unbordered_youtube_suffix:
  "0 < k \<Longrightarrow> k < length '' - YouTube'' \<Longrightarrow>
     take k '' - YouTube'' \<noteq> drop (length '' - YouTube'' - k) '' - YouTube''"
proof -
  assume "0 < k" "k < length '' - YouTube''"
  then have "k \<in> {1, 2, 3, 4, 5, 6, 7, 8, 9}" by auto
  then show ?thesis by (elim insertE emptyE) (simp_all add: numeral_nat)
qed

lemma candidate_watch:
  assumes "CHR ''&'' \<notin> set tok" "rest = [] \<or> hd rest = CHR ''&''"
    "\<not> str_contains (tok @ rest) ''watch?v=''"
  shows "video_id_candidate (pre @ ''watch?v='' @ tok @ rest) = Inr (Some tok)"
proof -
  have c: "str_contains (pre @ ''watch?v='' @ tok @ rest) ''watch?v=''"
    by (rule str_contains_append)
  have "try_bind (item_last (str_split (pre @ ''watch?v='' @ tok @ rest) ''watch?v='')) (\<lambda>r.
         try_bind (item_first (str_split r [CHR ''&''])) (\<lambda>video_id. Inr (Some video_id))) =
         Inr (Some tok)"
    by (rule marker_piece_value [OF unbordered_watch _ assms(3,1,2)]) simp_all
  then show ?thesis unfolding video_id_candidate_def using c by (simp only: if_True)
qed

lemma candidate_youtu_be:
  assumes "CHR ''?'' \<notin> set tok" "rest = [] \<or> hd rest = CHR ''?''"
    "\<not> str_contains (tok @ rest) ''youtu.be/''"
    "\<not> str_contains (pre @ ''youtu.be/'' @ tok @ rest) ''watch?v=''"
  shows "video_id_candidate (pre @ ''youtu.be/'' @ tok @ rest) = Inr (Some tok)"
proof -
  have c: "str_contains (pre @ ''youtu.be/'' @ tok @ rest) ''youtu.be/''"
    by (rule str_contains_append)
  have "try_bind (item_last (str_split (pre @ ''youtu.be/'' @ tok @ rest) ''youtu.be/'')) (\<lambda>r.
         try_bind (item_first (str_split r [CHR ''?''])) (\<lambda>video_id. Inr (Some video_id))) =
         Inr (Some tok)"
    by (rule marker_piece_value [OF unbordered_youtu_be _ assms(3,1,2)]) simp_all
  then show ?thesis unfolding video_id_candidate_def using c assms(4)
    by (simp only: if_True if_False)
qed

lemma candidate_embed:
  assumes "CHR ''?'' \<notin> set tok" "rest = [] \<or> hd rest = CHR ''?''"
    "\<not> str_contains (tok @ rest) ''embed/''"
    "\<not> str_contains (pre @ ''embed/'' @ tok @ rest) ''watch?v=''"
    "\<not> str_contains (pre @ ''embed/'' @ tok @ rest) ''youtu.be/''"
  shows "video_id_candidate (pre @ ''embed/'' @ tok @ rest) = Inr (Some tok)"
proof -
  have c: "str_contains (pre @ ''embed/'' @ tok @ rest) ''embed/''"
    by (rule str_contains_append)
  have "try_bind (item_last (str_split (pre @ ''embed/'' @ tok @ rest) ''embed/'')) (\<lambda>r.
         try_bind (item_first (str_split r [CHR ''?''])) (\<lambda>video_id. Inr (Some video_id))) =
         Inr (Some tok)"
    by (rule marker_piece_value [OF unbordered_embed _ assms(3,1,2)]) simp_all
  then show ?thesis unfolding video_id_candidate_def using c assms(4,5)
    by (simp only: if_True if_False)
qed

lemma app_extract_of_candidate:
  "video_id_candidate u = Inr (Some tok) \<Longrightarrow> length tok = 11 \<Longrightarrow>
     app_extract_video_id u = Inr (Some tok)"
  by (simp add: app_extract_video_id_candidate)

lemma app_extract_rejects:
  "video_id_candidate u = Inr (Some tok) \<Longrightarrow> length tok \<noteq> 11 \<Longrightarrow>
     app_extract_video_id u = Inr None"
  by (simp add: app_extract_video_id_candidate)


text \<open>
  \<^verbatim>\<open>extract_video_id\<close> of \<^verbatim>\<open>app.py\<close> returns a token of 11 characters or None,
  and raises nothing. A URL in which the last \<^verbatim>\<open>watch?v=\<close> is followed by a token
  of 11 characters without \<^verbatim>\<open>&\<close>, and then by nothing or by \<^verbatim>\<open>&\<close>, gives that
  token; likewise for \<^verbatim>\<open>youtu.be/\<close> and \<^verbatim>\<open>embed/\<close> with \<^verbatim>\<open>?\<close>, when no earlier
  marker of the chain occurs in the URL.
\<close>

lemma app_extract_video_id_token_or_absent:
  "(\<exists>r. app_extract_video_id u = Inr r \<and> (r = None \<or> (\<exists>v. r = Some v \<and> length v = 11)))"
proof -
  obtain r where r: "app_extract_video_id u = Inr r"
    using app_extract_video_id_total by blast
  show ?thesis
  proof (cases r)
    case None
    then show ?thesis using r by simp
  next
    case (Some v)
    then have "length v = 11" using r app_extract_video_id_length by simp
    then show ?thesis using r Some by simp
  qed
qed

lemma app_extract_video_id_watch:
  assumes "length tok = 11" "CHR ''&'' \<notin> set tok" "rest = [] \<or> hd rest = CHR ''&''"
    "\<not> str_contains (tok @ rest) ''watch?v=''"
  shows "app_extract_video_id (pre @ ''watch?v='' @ tok @ rest) = Inr (Some tok)"
  using candidate_watch [OF assms(2,3,4)] assms(1) by (rule app_extract_of_candidate)

lemma app_extract_video_id_youtu_be:
  assumes "length tok = 11" "CHR ''?'' \<notin> set tok" "rest = [] \<or> hd rest = CHR ''?''"
    "\<not> str_contains (tok @ rest) ''youtu.be/''"
    "\<not> str_contains (pre @ ''youtu.be/'' @ tok @ rest) ''watch?v=''"
  shows "app_extract_video_id (pre @ ''youtu.be/'' @ tok @ rest) = Inr (Some tok)"
  using candidate_youtu_be [OF assms(2,3,4,5)] assms(1) by (rule app_extract_of_candidate)

lemma app_extract_video_id_embed:
  assumes "length tok = 11" "CHR ''?'' \<notin> set tok" "rest = [] \<or> hd rest = CHR ''?''"
    "\<not> str_contains (tok @ rest) ''embed/''"
    "\<not> str_contains (pre @ ''embed/'' @ tok @ rest) ''watch?v=''"
    "\<not> str_contains (pre @ ''embed/'' @ tok @ rest) ''youtu.be/''"
  shows "app_extract_video_id (pre @ ''embed/'' @ tok @ rest) = Inr (Some tok)"
  using candidate_embed [OF assms(2,3,4,5,6)] assms(1) by (rule app_extract_of_candidate)

lemma app_extract_video_id_examples:
  "app_extract_video_id ''https://www.youtube.com/watch?v=dQw4w9WgXcQ'' = Inr (Some ''dQw4w9WgXcQ'')"
  "app_extract_video_id ''https://www.youtube.com/watch?v=dQw4w9WgXcQ&t=30s'' = Inr (Some ''dQw4w9WgXcQ'')"
  "app_extract_video_id ''https://youtu.be/dQw4w9WgXcQ'' = Inr (Some ''dQw4w9WgXcQ'')"
  "app_extract_video_id ''https://www.youtube.com/embed/dQw4w9WgXcQ'' = Inr (Some ''dQw4w9WgXcQ'')"
  "app_extract_video_id ''https://www.youtube.com/v/dQw4w9WgXcQ'' = Inr (Some ''dQw4w9WgXcQ'')"
  "app_extract_video_id ''an unrelated string'' = Inr None"
  "app_extract_video_id ''https://www.youtube.com/watch?v=abc'' = Inr None"
  by code_simp+

text \<open>
  Claim C1. \<^verbatim>\<open>extract_video_id\<close> of \<^verbatim>\<open>transcript.py\<close> returns the candidate of a
  marker branch without looking at its length: for
  \<^verbatim>\<open>https://www.youtube.com/watch?v=abc\<close> it returns the token \<^verbatim>\<open>abc\<close> of three
  characters, and for a URL that ends with the marker the empty token, where the
  claim requires an absent result.
\<close>

theorem transcript_extract_video_id_short_token:
  "transcript_extract_video_id ''https://www.youtube.com/watch?v=abc'' = Inr (Some ''abc'')
   \<and> transcript_extract_video_id ''https://youtu.be/'' = Inr (Some [])"
  by code_simp


section \<open>Properties of the duration and of the title\<close>

lemma isdigit_digit_char: "d < 10 \<Longrightarrow> isdigit (digit_char d)"
proof -
  assume "d < 10"
  then have "d \<in> {0, 1, 2, 3, 4, 5, 6, 7, 8, 9}" by auto
  then show ?thesis by (auto simp: isdigit_def digit_char_def)
qed

lemma digit_value_digit_char: "d < 10 \<Longrightarrow> digit_value (digit_char d) = int d"
proof -
  assume "d < 10"
  then have "d \<in> {0, 1, 2, 3, 4, 5, 6, 7, 8, 9}" by auto
  then show ?thesis by (auto simp: digit_value_def digit_char_def)
qed

lemma str_of_nat_digits: "\<forall>c\<in>set (str_of_nat n). isdigit c"
proof (induction n rule: str_of_nat.induct)
  case (1 n)
  show ?case
  proof (cases "n < 10")
    case True
    then show ?thesis by (subst str_of_nat.simps) (simp add: isdigit_digit_char)
  next
    case False
    then show ?thesis using 1 by (subst str_of_nat.simps) (simp add: isdigit_digit_char)
  qed
qed

lemma str_of_nat_not_Nil: "str_of_nat n \<noteq> []"
  by (subst str_of_nat.simps) simp

lemma int_of_digits_snoc:
  "int_of_digits (ds @ [c]) = 10 * int_of_digits ds + digit_value c"
  by (simp add: int_of_digits_def)

lemma int_of_digits_str_of_nat: "int_of_digits (str_of_nat n) = int n"
proof (induction n rule: str_of_nat.induct)
  case (1 n)
  show ?case
  proof (cases "n < 10")
    case True
    then show ?thesis
      by (subst str_of_nat.simps) (simp add: int_of_digits_def digit_value_digit_char)
  next
    case False
    then have "int_of_digits (str_of_nat (n div 10)) = int (n div 10)" using 1 by simp
    then have "int_of_digits (str_of_nat n) = 10 * int (n div 10) + int (n mod 10)"
      using False
      by (subst str_of_nat.simps) (simp add: int_of_digits_snoc digit_value_digit_char)
    then show ?thesis by (simp add: zdiv_int zmod_int)
  qed
qed

lemma str_of_int_nat: "str_of_int (int n) = str_of_nat n"
  by (simp add: str_of_int_def)

lemma takeWhile_digits:
  assumes "\<not> isdigit c"
  shows "takeWhile isdigit (str_of_nat n @ c # r) = str_of_nat n"
proof -
  have "takeWhile isdigit (str_of_nat n @ c # r) = str_of_nat n @ takeWhile isdigit (c # r)"
    by (rule takeWhile_append2) (use str_of_nat_digits in blast)
  then show ?thesis using assms by simp
qed

lemma dropWhile_digits:
  assumes "\<not> isdigit c"
  shows "dropWhile isdigit (str_of_nat n @ c # r) = c # r"
proof -
  have "dropWhile isdigit (str_of_nat n @ c # r) = dropWhile isdigit (c # r)"
    by (rule dropWhile_append2) (use str_of_nat_digits in blast)
  then show ?thesis using assms by simp
qed

lemma take_takeWhile:
  "take (length s - length (dropWhile p s)) s = takeWhile p s"
proof -
  have "length (takeWhile p s) + length (dropWhile p s) = length s"
    by (metis length_append takeWhile_dropWhile_id)
  then have "length s - length (dropWhile p s) = length (takeWhile p s)" by simp
  then show ?thesis by (metis takeWhile_eq_take)
qed

lemma plus_digits_then:
  assumes F: "\<And>c cs g'. isdigit c \<Longrightarrow> F (c # cs, g') = []"
  shows "concat (map F (rx_match (Plus (Chr isdigit)) (s, g))) =
     (if takeWhile isdigit s \<noteq> [] then F (dropWhile isdigit s, g) else [])"
proof (cases s)
  case Nil
  then show ?thesis by simp
next
  case (Cons d ds)
  show ?thesis
  proof (cases "isdigit d")
    case True
    have "rx_match (Plus (Chr isdigit)) (s, g) =
        greedy_iter (length ds) (rx_match (Chr isdigit)) (ds, g)"
      using Cons True by (simp del: rx_match.simps(1) add: rx_match_Chr)
    then show ?thesis
      using greedy_iter_Chr_seq [of isdigit F ds "length ds" g] F Cons True by simp
  next
    case False
    then show ?thesis using Cons by simp
  qed
qed

lemma component_match:
  assumes c: "\<not> isdigit c"
  shows "rx_match (Seq (Group k (Plus (Chr isdigit))) (lit [c])) (s, g) =
     (if takeWhile isdigit s \<noteq> [] \<and> (\<exists>r. dropWhile isdigit s = c # r)
      then [(tl (dropWhile isdigit s), (k, takeWhile isdigit s) # g)] else [])"
proof -
  let ?F = "\<lambda>st'. rx_match (lit [c])
      (fst st', (k, take (length s - length (fst st')) s) # snd st')"
  have F: "\<And>c' cs g'. isdigit c' \<Longrightarrow> ?F (c' # cs, g') = []"
    using c by (auto simp: rx_match_lit simp del: rx_match.simps lit.simps)
  have "rx_match (Seq (Group k (Plus (Chr isdigit))) (lit [c])) (s, g) =
      concat (map ?F (rx_match (Plus (Chr isdigit)) (s, g)))"
    by (simp del: rx_match.simps(1,7) lit.simps add: map_concat comp_def)
  also have "\<dots> = (if takeWhile isdigit s \<noteq> [] then ?F (dropWhile isdigit s, g) else [])"
    by (rule plus_digits_then [of ?F, OF F])
  also have "\<dots> = (if takeWhile isdigit s \<noteq> [] \<and> (\<exists>r. dropWhile isdigit s = c # r)
      then [(tl (dropWhile isdigit s), (k, takeWhile isdigit s) # g)] else [])"
  proof (cases "dropWhile isdigit s")
    case Nil
    then show ?thesis
      by (simp add: rx_match_lit del: rx_match.simps lit.simps dropWhile_eq_Nil_conv)
  next
    case (Cons x xs)
    have "take (length s - length (dropWhile isdigit s)) s = takeWhile isdigit s"
      by (rule take_takeWhile)
    then have "take (length s - Suc (length xs)) s = takeWhile isdigit s"
      using Cons by simp
    then show ?thesis using Cons
      by (auto simp: rx_match_lit simp del: rx_match.simps lit.simps dropWhile_eq_Nil_conv)
  qed
  finally show ?thesis .
qed

lemma opt_component_match:
  assumes "\<not> isdigit c"
  shows "\<exists>rest. rx_match (Opt (Seq (Group k (Plus (Chr isdigit))) (lit [c]))) st =
           read_component k c st # rest"
proof -
  obtain s g where st: "st = (s, g)" by (cases st)
  let ?cond = "takeWhile isdigit s \<noteq> [] \<and> (\<exists>r. dropWhile isdigit s = c # r)"
  have e: "rx_match (Opt (Seq (Group k (Plus (Chr isdigit))) (lit [c]))) (s, g) =
      (if ?cond then [(tl (dropWhile isdigit s), (k, takeWhile isdigit s) # g)] else []) @ [(s, g)]"
    by (simp only: rx_match.simps(5) component_match [OF assms])
  have c: "(case dropWhile isdigit s of [] \<Rightarrow> False | c' # r \<Rightarrow> c' = c) =
      (\<exists>r. dropWhile isdigit s = c # r)"
    by (cases "dropWhile isdigit s") (auto simp del: dropWhile_eq_Nil_conv)
  show ?thesis
  proof (cases ?cond)
    case True
    then have "read_component k c (s, g) = (tl (dropWhile isdigit s), (k, takeWhile isdigit s) # g)"
      unfolding read_component_def fst_conv snd_conv c by simp
    then show ?thesis unfolding st e using True by simp
  next
    case False
    then have "read_component k c (s, g) = (s, g)"
      unfolding read_component_def fst_conv snd_conv c by simp
    then show ?thesis unfolding st e using False by simp
  qed
qed

lemma notdigit_HMS: "\<not> isdigit CHR ''H''" "\<not> isdigit CHR ''M''" "\<not> isdigit CHR ''S''"
  by (simp_all add: isdigit_def)

lemma re_match_duration:
  "re_match duration_pattern (''PT'' @ s) =
     Some (read_component 3 CHR ''S'' (read_component 2 CHR ''M''
             (read_component 1 CHR ''H'' (s, []))))"
proof -
  let ?X = "\<lambda>k c. Opt (Seq (Group k (Plus (Chr isdigit))) (lit [c]))"
  let ?s1 = "read_component 1 CHR ''H'' (s, [])"
  let ?s2 = "read_component 2 CHR ''M'' ?s1"
  let ?s3 = "read_component 3 CHR ''S'' ?s2"
  obtain r1 where r1: "rx_match (?X 1 CHR ''H'') (s, []) = ?s1 # r1"
    using opt_component_match [OF notdigit_HMS(1)] by blast
  obtain r2 where r2: "rx_match (?X 2 CHR ''M'') ?s1 = ?s2 # r2"
    using opt_component_match [OF notdigit_HMS(2)] by blast
  obtain r3 where r3: "rx_match (?X 3 CHR ''S'') ?s2 = ?s3 # r3"
    using opt_component_match [OF notdigit_HMS(3)] by blast
  have pt: "rx_match (lit ''PT'') (''PT'' @ s, []) = [(s, [])]"
    by (simp add: rx_match_lit del: rx_match.simps lit.simps)
  have "rx_match duration_pattern (''PT'' @ s, []) =
      concat (map (rx_match (Seq (?X 1 CHR ''H'') (Seq (?X 2 CHR ''M'') (?X 3 CHR ''S''))))
                (rx_match (lit ''PT'') (''PT'' @ s, [])))"
    unfolding duration_pattern_def by (simp only: rx_match.simps(3) lit.simps)
  also have "\<dots> = rx_match (Seq (?X 1 CHR ''H'') (Seq (?X 2 CHR ''M'') (?X 3 CHR ''S''))) (s, [])"
    unfolding pt by simp
  also have "\<dots> = concat (map (rx_match (Seq (?X 2 CHR ''M'') (?X 3 CHR ''S''))) (?s1 # r1))"
    using r1 by (simp only: rx_match.simps(3))
  also have "\<dots> = concat (map (rx_match (?X 3 CHR ''S'')) (?s2 # r2)) @
      concat (map (rx_match (Seq (?X 2 CHR ''M'') (?X 3 CHR ''S''))) r1)"
    using r2 by (simp only: rx_match.simps(3) list.map concat.simps)
  also have "\<dots> = ?s3 # (r3 @ concat (map (rx_match (?X 3 CHR ''S'')) r2) @
      concat (map (rx_match (Seq (?X 2 CHR ''M'') (?X 3 CHR ''S''))) r1))"
    using r3 by (simp only: list.map concat.simps append.simps append_assoc)
  finally show ?thesis by (simp only: re_match_def list.case)
qed

lemma read_component_present:
  "\<not> isdigit c \<Longrightarrow>
     read_component k c (iso_component (Some n) c @ rest, g) = (rest, (k, str_of_nat n) # g)"
  by (simp add: read_component_def iso_component_def takeWhile_digits dropWhile_digits
      str_of_nat_not_Nil)

lemma read_component_other:
  "\<not> isdigit c' \<Longrightarrow> c' \<noteq> c \<Longrightarrow>
     read_component k c (iso_component (Some n) c' @ rest, g) =
       (iso_component (Some n) c' @ rest, g)"
  by (simp add: read_component_def iso_component_def takeWhile_digits dropWhile_digits)

lemma read_component_Nil: "read_component k c ([], g) = ([], g)"
  by (simp add: read_component_def)

lemma iso_component_None: "iso_component None c = []"
  by (simp add: iso_component_def)

lemma group_int_str:
  "group_int (s, [(k, str_of_nat n)] @ g) k = int n"
  by (simp add: group_int_def group_def int_of_digits_str_of_nat str_of_nat_not_Nil)

lemma parse_duration_iso:
  "parse_duration (iso_duration h m s) d =
     (let hours = (case h of None \<Rightarrow> 0 | Some n \<Rightarrow> n);
          minutes = (case m of None \<Rightarrow> 0 | Some n \<Rightarrow> n);
          seconds = (case s of None \<Rightarrow> 0 | Some n \<Rightarrow> n)
      in if 0 < hours then
           str_of_nat hours @ ''h '' @ str_of_nat minutes @ ''m '' @ str_of_nat seconds @ ''s''
         else if 0 < minutes then str_of_nat minutes @ ''m '' @ str_of_nat seconds @ ''s''
         else str_of_nat seconds @ ''s'')"
proof -
  have zero: "str_of_int 0 = str_of_nat 0" by (simp add: str_of_int_def)
  have m: "re_match duration_pattern (iso_duration h m s) =
      Some (read_component 3 CHR ''S'' (read_component 2 CHR ''M''
             (read_component 1 CHR ''H''
                (iso_component h CHR ''H'' @ iso_component m CHR ''M'' @ iso_component s CHR ''S'',
                 []))))"
    unfolding iso_duration_def by (rule re_match_duration)
  show ?thesis
    unfolding parse_duration_def m
    by (cases h; cases m; cases s)
       (simp_all add: iso_component_None read_component_Nil read_component_present
          read_component_other notdigit_HMS group_int_def group_def
          int_of_digits_str_of_nat str_of_nat_not_Nil str_of_int_nat zero Let_def
          read_component_present [where rest = "[]", simplified]
          read_component_other [where rest = "[]", simplified])
qed

lemma scan_video_object:
  assumes "map_of kvs ''@type'' = Some (JStr ''VideoObject'')"
    "map_of kvs ''duration'' = Some (JStr d)" "str_startswith d ''PT''"
  shows "scan_scripts dur (Inr (JObj kvs) # rest) = parse_duration d dur"
proof -
  have "d \<noteq> []" using assms(3) by (cases d) auto
  then show ?thesis using assms by (simp add: script_step_def)
qed

lemma scan_not_pt:
  assumes "map_of kvs ''@type'' = Some (JStr ''VideoObject'')"
    "map_of kvs ''duration'' = Some (JStr d)" "\<not> str_startswith d ''PT''"
  shows "scan_scripts dur (Inr (JObj kvs) # rest) = dur"
  using assms by (simp add: script_step_def)

lemma scan_missing:
  assumes "map_of kvs ''@type'' = Some (JStr ''VideoObject'')"
    "map_of kvs ''duration'' = None"
  shows "scan_scripts dur (Inr (JObj kvs) # rest) = dur"
  using assms by (simp add: script_step_def)

lemma iso_duration_pt: "str_startswith (iso_duration h m s) ''PT''"
  by (simp add: iso_duration_def)

lemma parse_examples:
  "parse_duration ''PT1H5M12S'' ''Unknown'' = ''1h 5m 12s''"
  "parse_duration ''PT5M'' ''Unknown'' = ''5m 0s''"
  "parse_duration ''PT42S'' ''Unknown'' = ''42s''"
  by code_simp+

lemma str_replace_none:
  "\<not> str_contains t old \<Longrightarrow> str_replace t old new = t"
  by (induction t) auto

lemma strip_suffix_append:
  "strip_suffix suffix (body @ suffix) = body"
  by (simp add: strip_suffix_def str_startswith_append)

lemma strip_suffix_none:
  assumes "\<not> str_contains t suffix"
  shows "strip_suffix suffix t = t"
proof -
  have "\<not> str_startswith (rev t) (rev suffix)"
  proof
    assume "str_startswith (rev t) (rev suffix)"
    then have "take (length suffix) (rev t) = rev suffix" by (simp add: str_startswith_take)
    then have "rev t = rev suffix @ drop (length suffix) (rev t)"
      by (metis append_take_drop_id)
    then have "t = rev (drop (length suffix) (rev t)) @ suffix @ []"
      by (metis rev_append rev_rev_ident append_Nil2)
    then have "str_contains t suffix" by (metis str_contains_append)
    with assms show False by contradiction
  qed
  then show ?thesis by (simp add: strip_suffix_def)
qed

lemma app_title_suffix:
  assumes "og_title soup = None" "title_element soup = Some (body @ '' - YouTube'')"
    "\<not> str_contains body '' - YouTube''" "str_strip body = body"
  shows "app_title soup = body" "spec_title soup = body"
proof -
  have "str_replace (body @ '' - YouTube'') '' - YouTube'' [] = body @ []"
    by (rule str_replace_suffix [OF unbordered_youtube_suffix _ assms(3)]) simp_all
  then show "app_title soup = body" using assms by (simp add: app_title_def)
  show "spec_title soup = body" using assms by (simp add: spec_title_def strip_suffix_append)
qed

lemma app_title_plain:
  assumes "og_title soup = None" "title_element soup = Some t"
    "\<not> str_contains t '' - YouTube''" "str_strip t = t"
  shows "app_title soup = t" "spec_title soup = t"
  using assms by (simp_all add: app_title_def spec_title_def str_replace_none strip_suffix_none)

lemma app_title_og:
  assumes "og_title soup = Some tag" "map_of tag ''content'' = Some c"
  shows "app_title soup = c" "spec_title soup = c"
  using assms by (simp_all add: app_title_def spec_title_def)

lemma app_title_unknown:
  assumes "og_title soup = None" "title_element soup = None"
  shows "app_title soup = ''Unknown Title''" "spec_title soup = ''Unknown Title''"
  using assms by (simp_all add: app_title_def spec_title_def)

lemma app_metadata_title:
  assumes "0 \<le> d" "http (watch_url v) = Inr soup"
  shows "\<exists>m. app_get_video_metadata d http v = Inr m \<and> title m = app_title soup"
  using assms by (simp add: app_get_video_metadata_def time_sleep_def)

lemma transcript_metadata_title:
  assumes "0 \<le> d" "http (watch_url v) = Inr soup"
  shows "\<exists>m. transcript_get_video_metadata d http v = Inr m \<and> title m = transcript_title soup"
  using assms by (simp add: transcript_get_video_metadata_def time_sleep_def)


text \<open>
  Claim C6. For a script whose entry has the type "VideoObject": the duration text
  "PT1H5M12S" gives "1h 5m 12s", "PT5M" gives "5m 0s" and "PT42S" gives "42s"; a
  missing duration, and a duration text that does not begin with "PT", give
  "Unknown", as does a page without scripts. In general the text "PT" followed by
  the hours with "H", the minutes with "M" and the seconds with "S", each present or
  absent and an absent one counting as 0, is rendered "Hh Mm Ss" when the hours are
  positive, "Mm Ss" when the hours are 0 and the minutes positive, and "Ss"
  otherwise.
\<close>

theorem duration_of_video_object:
  assumes "map_of kvs ''@type'' = Some (JStr ''VideoObject'')"
  shows "(map_of kvs ''duration'' = Some (JStr ''PT1H5M12S'') \<longrightarrow>
            scan_scripts ''Unknown'' (Inr (JObj kvs) # rest) = ''1h 5m 12s'')
    \<and> (map_of kvs ''duration'' = Some (JStr ''PT5M'') \<longrightarrow>
            scan_scripts ''Unknown'' (Inr (JObj kvs) # rest) = ''5m 0s'')
    \<and> (map_of kvs ''duration'' = Some (JStr ''PT42S'') \<longrightarrow>
            scan_scripts ''Unknown'' (Inr (JObj kvs) # rest) = ''42s'')
    \<and> (map_of kvs ''duration'' = None \<longrightarrow>
            scan_scripts ''Unknown'' (Inr (JObj kvs) # rest) = ''Unknown'')
    \<and> (map_of kvs ''duration'' = Some (JStr d) \<and> \<not> str_startswith d ''PT'' \<longrightarrow>
            scan_scripts ''Unknown'' (Inr (JObj kvs) # rest) = ''Unknown'')
    \<and> (map_of kvs ''duration'' = Some (JStr (iso_duration h m s)) \<longrightarrow>
            scan_scripts ''Unknown'' (Inr (JObj kvs) # rest) =
              (let hours = (case h of None \<Rightarrow> 0 | Some n \<Rightarrow> n);
                   minutes = (case m of None \<Rightarrow> 0 | Some n \<Rightarrow> n);
                   seconds = (case s of None \<Rightarrow> 0 | Some n \<Rightarrow> n)
               in if 0 < hours then
                    str_of_nat hours @ ''h '' @ str_of_nat minutes @ ''m '' @
                    str_of_nat seconds @ ''s''
                  else if 0 < minutes then str_of_nat minutes @ ''m '' @ str_of_nat seconds @ ''s''
                  else str_of_nat seconds @ ''s''))
    \<and> scan_scripts ''Unknown'' [] = ''Unknown''"
proof (intro conjI impI)
  assume "map_of kvs ''duration'' = Some (JStr ''PT1H5M12S'')"
  then show "scan_scripts ''Unknown'' (Inr (JObj kvs) # rest) = ''1h 5m 12s''"
    using scan_video_object [OF assms, of "''PT1H5M12S''" "''Unknown''" rest]
    by (simp add: parse_examples)
next
  assume "map_of kvs ''duration'' = Some (JStr ''PT5M'')"
  then show "scan_scripts ''Unknown'' (Inr (JObj kvs) # rest) = ''5m 0s''"
    using scan_video_object [OF assms, of "''PT5M''" "''Unknown''" rest]
    by (simp add: parse_examples)
next
  assume "map_of kvs ''duration'' = Some (JStr ''PT42S'')"
  then show "scan_scripts ''Unknown'' (Inr (JObj kvs) # rest) = ''42s''"
    using scan_video_object [OF assms, of "''PT42S''" "''Unknown''" rest]
    by (simp add: parse_examples)
next
  assume "map_of kvs ''duration'' = None"
  then show "scan_scripts ''Unknown'' (Inr (JObj kvs) # rest) = ''Unknown''"
    by (rule scan_missing [OF assms])
next
  assume "map_of kvs ''duration'' = Some (JStr d) \<and> \<not> str_startswith d ''PT''"
  then show "scan_scripts ''Unknown'' (Inr (JObj kvs) # rest) = ''Unknown''"
    using scan_not_pt [OF assms, of d "''Unknown''" rest] by simp
next
  assume "map_of kvs ''duration'' = Some (JStr (iso_duration h m s))"
  then have "scan_scripts ''Unknown'' (Inr (JObj kvs) # rest) =
      parse_duration (iso_duration h m s) ''Unknown''"
    using scan_video_object [OF assms _ iso_duration_pt] by simp
  then show "scan_scripts ''Unknown'' (Inr (JObj kvs) # rest) =
              (let hours = (case h of None \<Rightarrow> 0 | Some n \<Rightarrow> n);
                   minutes = (case m of None \<Rightarrow> 0 | Some n \<Rightarrow> n);
                   seconds = (case s of None \<Rightarrow> 0 | Some n \<Rightarrow> n)
               in if 0 < hours then
                    str_of_nat hours @ ''h '' @ str_of_nat minutes @ ''m '' @
                    str_of_nat seconds @ ''s''
                  else if 0 < minutes then str_of_nat minutes @ ''m '' @ str_of_nat seconds @ ''s''
                  else str_of_nat seconds @ ''s'')"
    by (simp only: parse_duration_iso)
next
  show "scan_scripts ''Unknown'' [] = ''Unknown''" by simp
qed

theorem duration_of_video_object_witness:
  "scan_scripts ''Unknown''
     [Inr (JObj [(''@type'', JStr ''VideoObject''), (''duration'', JStr ''PT1H5M12S'')])] =
     ''1h 5m 12s''
   \<and> scan_scripts ''Unknown''
     [Inr (JObj [(''@type'', JStr ''VideoObject''), (''duration'', JStr ''1:05:12'')])] =
     ''Unknown''
   \<and> scan_scripts ''Unknown'' [Inr (JObj [(''@type'', JStr ''VideoObject'')])] = ''Unknown''"
  using duration_of_video_object
    [where kvs = "[(''@type'', JStr ''VideoObject''), (''duration'', JStr ''PT1H5M12S'')]"
       and rest = "[]" and d = "''x''"]
    duration_of_video_object
    [where kvs = "[(''@type'', JStr ''VideoObject''), (''duration'', JStr ''1:05:12'')]"
       and rest = "[]" and d = "''1:05:12''"]
    duration_of_video_object
    [where kvs = "[(''@type'', JStr ''VideoObject'')]" and rest = "[]" and d = "''x''"]
  by simp

text \<open>
  Claim C6 in its original wording also sends every malformed duration to "Unknown".
  A text that begins with "PT" always matches the pattern, whose three components are
  all optional: "PTabc" is rendered "0s".
\<close>

theorem duration_malformed_counterexample:
  "scan_scripts ''Unknown''
     [Inr (JObj [(''@type'', JStr ''VideoObject''), (''duration'', JStr ''PTabc'')])] = ''0s''
   \<and> scan_scripts ''Unknown''
     [Inr (JObj [(''@type'', JStr ''VideoObject''), (''duration'', JStr ''PTabc'')])] \<noteq> ''Unknown''"
proof -
  have "scan_scripts ''Unknown''
     [Inr (JObj [(''@type'', JStr ''VideoObject''), (''duration'', JStr ''PTabc'')])] = ''0s''"
    by code_simp
  then show ?thesis by simp
qed

text \<open>
  Claim C8. The title \<^verbatim>\<open>get_video_metadata\<close> of \<^verbatim>\<open>app.py\<close> returns for a fetched
  page is: when the page has an \<^verbatim>\<open>og:title\<close> tag, the \<^verbatim>\<open>content\<close> attribute of the
  tag ("Unknown Title" when the tag has none); else, when it has a \<^verbatim>\<open>title\<close>
  element, the text of the element with every occurrence of " - YouTube" removed and
  the whitespace at both ends trimmed; else "Unknown Title". For a title text that ends
  with " - YouTube", has no other occurrence of it and no whitespace at its ends (and
  for one without any occurrence), this is the text with the trailing suffix
  stripped, as the specification words it.
\<close>

theorem app_title_chain:
  "(og_title soup = Some tag \<longrightarrow>
      app_title soup = (case map_of tag ''content'' of Some c \<Rightarrow> c | None \<Rightarrow> ''Unknown Title''))
   \<and> (og_title soup = None \<and> title_element soup = Some t \<longrightarrow>
      app_title soup = str_strip (str_replace t '' - YouTube'' []))
   \<and> (og_title soup = None \<and> title_element soup = None \<longrightarrow> app_title soup = ''Unknown Title'')
   \<and> (og_title soup = None \<and> title_element soup = Some (body @ '' - YouTube'') \<and>
       \<not> str_contains body '' - YouTube'' \<and> str_strip body = body \<longrightarrow>
      app_title soup = body \<and> app_title soup = spec_title soup)
   \<and> (og_title soup = None \<and> title_element soup = Some t \<and>
       \<not> str_contains t '' - YouTube'' \<and> str_strip t = t \<longrightarrow>
      app_title soup = t \<and> app_title soup = spec_title soup)
   \<and> (0 \<le> d \<and> http (watch_url v) = Inr soup \<longrightarrow>
      (\<exists>m. app_get_video_metadata d http v = Inr m \<and> title m = app_title soup))"
proof (intro conjI impI)
  assume "og_title soup = Some tag"
  then show "app_title soup =
      (case map_of tag ''content'' of Some c \<Rightarrow> c | None \<Rightarrow> ''Unknown Title'')"
    by (simp add: app_title_def)
next
  assume "og_title soup = None \<and> title_element soup = Some t"
  then show "app_title soup = str_strip (str_replace t '' - YouTube'' [])"
    by (simp add: app_title_def)
next
  assume "og_title soup = None \<and> title_element soup = None"
  then show "app_title soup = ''Unknown Title''" by (simp add: app_title_def)
next
  assume a: "og_title soup = None \<and> title_element soup = Some (body @ '' - YouTube'') \<and>
       \<not> str_contains body '' - YouTube'' \<and> str_strip body = body"
  then show "app_title soup = body" using app_title_suffix(1) [of soup body] by simp
  from a show "app_title soup = spec_title soup"
    using app_title_suffix [of soup body] by simp
next
  assume a: "og_title soup = None \<and> title_element soup = Some t \<and>
       \<not> str_contains t '' - YouTube'' \<and> str_strip t = t"
  then show "app_title soup = t" using app_title_plain(1) [of soup t] by simp
  from a show "app_title soup = spec_title soup" using app_title_plain [of soup t] by simp
next
  assume "0 \<le> d \<and> http (watch_url v) = Inr soup"
  then show "\<exists>m. app_get_video_metadata d http v = Inr m \<and> title m = app_title soup"
    using app_metadata_title [of d http v soup] by simp
qed

theorem app_title_chain_witness:
  "app_title \<lparr>og_title = None, title_element = Some ''Never Gonna Give You Up - YouTube'',
              og_description = None, ld_json_scripts = []\<rparr> = ''Never Gonna Give You Up''
   \<and> app_title \<lparr>og_title = Some [(''property'', ''og:title''), (''content'', ''Rick'')],
              title_element = Some ''Never Gonna Give You Up - YouTube'',
              og_description = None, ld_json_scripts = []\<rparr> = ''Rick''
   \<and> app_title \<lparr>og_title = None, title_element = None,
              og_description = None, ld_json_scripts = []\<rparr> = ''Unknown Title''"
proof -
  have nc: "\<not> str_contains ''Never Gonna Give You Up'' '' - YouTube''" by code_simp
  have st: "str_strip ''Never Gonna Give You Up'' = ''Never Gonna Give You Up''" by code_simp
  show ?thesis
    using app_title_chain
      [where soup = "\<lparr>og_title = None,
           title_element = Some ''Never Gonna Give You Up - YouTube'',
           og_description = None, ld_json_scripts = []\<rparr>"
         and body = "''Never Gonna Give You Up''" and t = "''x''" and tag = "[]"
         and d = 1 and http = "\<lambda>u. Inl (Exception ''e'')" and v = "[]"]
      app_title_chain
      [where soup = "\<lparr>og_title = Some [(''property'', ''og:title''), (''content'', ''Rick'')],
           title_element = Some ''Never Gonna Give You Up - YouTube'',
           og_description = None, ld_json_scripts = []\<rparr>"
         and body = "''x''" and t = "''x''"
         and tag = "[(''property'', ''og:title''), (''content'', ''Rick'')]"
         and d = 1 and http = "\<lambda>u. Inl (Exception ''e'')" and v = "[]"]
      app_title_chain
      [where soup = "\<lparr>og_title = None, title_element = None,
           og_description = None, ld_json_scripts = []\<rparr>"
         and body = "''x''" and t = "''x''" and tag = "[]"
         and d = 1 and http = "\<lambda>u. Inl (Exception ''e'')" and v = "[]"]
      nc st
    by simp
qed

text \<open>
  Claim C8 in its original wording strips a trailing suffix only. An occurrence of
  " - YouTube" inside the title is removed as well.
\<close>

theorem title_suffix_counterexample:
  "app_title \<lparr>og_title = None, title_element = Some ''Cats - YouTube tips - YouTube'',
              og_description = None, ld_json_scripts = []\<rparr> = ''Cats tips''
   \<and> spec_title \<lparr>og_title = None, title_element = Some ''Cats - YouTube tips - YouTube'',
              og_description = None, ld_json_scripts = []\<rparr> = ''Cats - YouTube tips''
   \<and> app_title \<lparr>og_title = None, title_element = Some ''Cats - YouTube tips - YouTube'',
              og_description = None, ld_json_scripts = []\<rparr> \<noteq>
     spec_title \<lparr>og_title = None, title_element = Some ''Cats - YouTube tips - YouTube'',
              og_description = None, ld_json_scripts = []\<rparr>"
proof -
  have a: "app_title \<lparr>og_title = None, title_element = Some ''Cats - YouTube tips - YouTube'',
              og_description = None, ld_json_scripts = []\<rparr> = ''Cats tips''"
    by code_simp
  have b: "spec_title \<lparr>og_title = None, title_element = Some ''Cats - YouTube tips - YouTube'',
              og_description = None, ld_json_scripts = []\<rparr> = ''Cats - YouTube tips''"
    by code_simp
  show ?thesis unfolding a b by simp
qed

text \<open>\<^verbatim>\<open>transcript.py\<close> has no step for the \<^verbatim>\<open>title\<close> element.\<close>

lemma transcript_title_no_fallback:
  "transcript_title \<lparr>og_title = None, title_element = Some ''Cats - YouTube'',
              og_description = None, ld_json_scripts = []\<rparr> = ''Unknown Title''"
  by (simp add: transcript_title_def)

section \<open>Properties of the metadata and of the batch endpoint\<close>

lemma app_get_video_metadata_total:
  "\<exists>m. app_get_video_metadata d http v = Inr m \<and> url m = watch_url v"
  by (cases "http (watch_url v)") (auto simp: app_get_video_metadata_def time_sleep_def)

lemma transcript_get_video_metadata_total:
  "\<exists>m. transcript_get_video_metadata d http v = Inr m \<and> url m = watch_url v"
  by (cases "http (watch_url v)") (auto simp: transcript_get_video_metadata_def time_sleep_def)

lemma app_get_video_metadata_failure:
  "http (watch_url v) = Inl e \<Longrightarrow>
     app_get_video_metadata d http v =
       Inr \<lparr>title = ''Unknown Title'', description = [], duration = ''Unknown'',
            url = ''https://www.youtube.com/watch?v='' @ v\<rparr>"
  by (auto simp: app_get_video_metadata_def time_sleep_def watch_url_def split: sum.splits)

lemma transcript_get_video_metadata_failure:
  "http (watch_url v) = Inl e \<Longrightarrow>
     transcript_get_video_metadata d http v =
       Inr \<lparr>title = ''Unknown Title'', description = [], duration = ''Unknown'',
            url = ''https://www.youtube.com/watch?v='' @ v\<rparr>"
  by (auto simp: transcript_get_video_metadata_def time_sleep_def watch_url_def split: sum.splits)

lemma batch_body_rejects:
  assumes "map_of kvs ''urls'' = Some (JArr urls)" "urls = [] \<or> 5 < length urls"
  shows "batch_body d api ts (Inr (JObj kvs)) =
     (Inr (error_response (if urls = [] then ''URLs must be a non-empty array''
                           else ''Batch size limited to 5 URLs'') 400), [])"
proof -
  have ne: "kvs \<noteq> []" using assms(1) by auto
  have "''urls'' \<in> fst ` set kvs" using assms(1) by (metis map_of_SomeD fst_conv image_eqI)
  then have "py_in ''urls'' (JObj kvs) = Inr True" by simp
  moreover have "str_of_int 5 = ''5''" by code_simp
  ultimately show ?thesis using assms ne
    by (auto simp: batch_body_def)
qed

lemma batch_rejects:
  assumes "map_of kvs ''urls'' = Some (JArr urls)" "urls = [] \<or> 5 < length urls"
  shows "transcript_get_batch_transcripts mx d api now ts (Inr (JObj kvs)) st =
     (if fst (rate_limit_check mx now st)
      then (error_response (if urls = [] then ''URLs must be a non-empty array''
                            else ''Batch size limited to 5 URLs'') 400,
            snd (rate_limit_check mx now st), [])
      else (error_response ''Rate limit exceeded. Try again later.'' 429,
            snd (rate_limit_check mx now st), []))"
  using batch_body_rejects [OF assms, of d api ts]
  by (cases "rate_limit_check mx now st") (auto simp: transcript_get_batch_transcripts_def)

text \<open>
  Claim C7. For every video id, \<^verbatim>\<open>get_video_metadata\<close> of both files returns a
  dictionary and raises nothing, and its \<^verbatim>\<open>url\<close> entry is the watch-page URL of
  the video id; when the request for the page fails, the dictionary is the sentinel:
  title "Unknown Title", empty description, duration "Unknown", and that URL.
\<close>

theorem get_video_metadata_never_raises:
  "(\<exists>m. app_get_video_metadata d http v = Inr m \<and>
         url m = ''https://www.youtube.com/watch?v='' @ v)
   \<and> (\<exists>m. transcript_get_video_metadata d http v = Inr m \<and>
         url m = ''https://www.youtube.com/watch?v='' @ v)
   \<and> (http (''https://www.youtube.com/watch?v='' @ v) = Inl e \<longrightarrow>
         app_get_video_metadata d http v =
           Inr \<lparr>title = ''Unknown Title'', description = [], duration = ''Unknown'',
                url = ''https://www.youtube.com/watch?v='' @ v\<rparr>
       \<and> transcript_get_video_metadata d http v =
           Inr \<lparr>title = ''Unknown Title'', description = [], duration = ''Unknown'',
                url = ''https://www.youtube.com/watch?v='' @ v\<rparr>)"
  using app_get_video_metadata_total [of d http v]
    transcript_get_video_metadata_total [of d http v]
    app_get_video_metadata_failure [of http v e d]
    transcript_get_video_metadata_failure [of http v e d]
  by (simp add: watch_url_def)

theorem get_video_metadata_never_raises_witness:
  "app_get_video_metadata 1 (\<lambda>u. Inl (Exception ''Read timed out'')) ''dQw4w9WgXcQ'' =
     Inr \<lparr>title = ''Unknown Title'', description = [], duration = ''Unknown'',
          url = ''https://www.youtube.com/watch?v=dQw4w9WgXcQ''\<rparr>
   \<and> transcript_get_video_metadata 1 (\<lambda>u. Inl (Exception ''Read timed out'')) ''dQw4w9WgXcQ'' =
     Inr \<lparr>title = ''Unknown Title'', description = [], duration = ''Unknown'',
          url = ''https://www.youtube.com/watch?v=dQw4w9WgXcQ''\<rparr>"
  using get_video_metadata_never_raises
    [where d = 1 and v = "''dQw4w9WgXcQ''" and http = "\<lambda>u. Inl (Exception ''Read timed out'')"
       and e = "Exception ''Read timed out''"]
  by simp

text \<open>
  Claim C9. A request to the batch endpoint whose body is an object with an array
  under \<^verbatim>\<open>urls\<close> that is empty or has more than 5 elements (6, for one) is
  answered without any URL being processed: no video id is handed to
  \<^verbatim>\<open>fetch_transcript\<close>. The status is 400 with the validation message when the
  rate limiter admits the request; the rate limiter is asked first, and when it
  rejects the request the status is 429.
\<close>

theorem batch_rejects_empty_and_oversized:
  assumes "map_of kvs ''urls'' = Some (JArr urls)" and "urls = [] \<or> 5 < length urls"
  shows "transcript_get_batch_transcripts mx d api now ts (Inr (JObj kvs)) st =
     (if fst (rate_limit_check mx now st)
      then ((JObj [(''success'', JBool False),
                   (''error'', JStr (if urls = [] then ''URLs must be a non-empty array''
                                     else ''Batch size limited to 5 URLs''))], 400),
            snd (rate_limit_check mx now st), [])
      else ((JObj [(''success'', JBool False),
                   (''error'', JStr ''Rate limit exceeded. Try again later.'')], 429),
            snd (rate_limit_check mx now st), []))"
  using batch_rejects [OF assms, of mx d api now ts st] by (simp add: error_response_def)

theorem batch_rejects_empty_and_oversized_witness:
  "transcript_get_batch_transcripts 30 1
     \<lparr>get_transcript = (\<lambda>v l. Inr [[(''text'', ''Hi'')]]), list_transcripts = (\<lambda>v. Inr [])\<rparr>
     100 ''2024-01-01T00:00:00'' (Inr (JObj [(''urls'', JArr [])])) [] =
     ((JObj [(''success'', JBool False), (''error'', JStr ''URLs must be a non-empty array'')],
       400), [100], [])
   \<and> transcript_get_batch_transcripts 30 1
     \<lparr>get_transcript = (\<lambda>v l. Inr [[(''text'', ''Hi'')]]), list_transcripts = (\<lambda>v. Inr [])\<rparr>
     100 ''2024-01-01T00:00:00''
     (Inr (JObj [(''urls'', JArr (replicate 6 (JStr ''https://youtu.be/dQw4w9WgXcQ'')))])) [] =
     ((JObj [(''success'', JBool False), (''error'', JStr ''Batch size limited to 5 URLs'')],
       400), [100], [])"
proof -
  have r: "rate_limit_check 30 100 [] = (True, [100])"
    by (simp add: rate_limit_check_def)
  show ?thesis
    using batch_rejects_empty_and_oversized
      [where kvs = "[(''urls'', JArr [])]" and urls = "[]" and mx = 30 and d = 1 and now = 100
         and st = "[]" and ts = "''2024-01-01T00:00:00''"
         and api = "\<lparr>get_transcript = (\<lambda>v l. Inr [[(''text'', ''Hi'')]]),
                       list_transcripts = (\<lambda>v. Inr [])\<rparr>"]
      batch_rejects_empty_and_oversized
      [where kvs = "[(''urls'', JArr (replicate 6 (JStr ''https://youtu.be/dQw4w9WgXcQ'')))]"
         and urls = "replicate 6 (JStr ''https://youtu.be/dQw4w9WgXcQ'')" and mx = 30 and d = 1
         and now = 100 and st = "[]" and ts = "''2024-01-01T00:00:00''"
         and api = "\<lparr>get_transcript = (\<lambda>v l. Inr [[(''text'', ''Hi'')]]),
                       list_transcripts = (\<lambda>v. Inr [])\<rparr>"]
      r
    by simp
qed

end
